theory Spec2Isabelle
  imports Complex_Main "HOL-Library.Word" "HOL-Library.Multiset" "HOL-Library.Log_Nat"
begin

section \<open>Time\<close>

text \<open>
  A \<open>time.Time\<close> is an instant in nanoseconds on one clock axis, a \<open>time.Duration\<close> a
  signed 64-bit count of nanoseconds. Every call of \<open>time.Now()\<close> in the source is an
  argument \<open>now\<close> of the modelled operation, and an operation that reads the clock once
  for each element of a list takes one reading for each. \<open>Time.Sub\<close> saturates at the largest and
  smallest duration, as the library does; \<open>time.Since t\<close> is \<open>Now().Sub(t)\<close>.
  Go's \<open>int\<close> and \<open>time.Duration\<close> are 64 bits wide and signed: the result of an
  addition, subtraction or multiplication on them is wrapped into that range by
  \<open>wrap64\<close>.
\<close>

type_synonym Time = int
type_synonym Duration = int

definition wrap64 :: "int \<Rightarrow> int" where
  "wrap64 x = (x + 2 ^ 63) mod 2 ^ 64 - 2 ^ 63"

definition maxDuration :: Duration where
  "maxDuration = 2 ^ 63 - 1"

definition minDuration :: Duration where
  "minDuration = - (2 ^ 63)"

definition Sub :: "Time \<Rightarrow> Time \<Rightarrow> Duration" where
  "Sub t u = (let d = t - u in
     if d > maxDuration then maxDuration
     else if d < minDuration then minDuration
     else d)"

definition Since :: "Time \<Rightarrow> Time \<Rightarrow> Duration" where
  "Since now t = Sub now t"

text \<open>The zero \<open>time.Time\<close> (January 1, year 1, 00:00 UTC) relative to the Unix epoch.\<close>

definition zeroTime :: Time where
  "zeroTime = - 62135596800 * 1000000000"

section \<open>Circuit breaker\<close>

datatype State = StateClosed | StateOpen | StateHalfOpen

record CircuitBreaker =
  cb_maxFailures :: int
  cb_timeout :: Duration
  cb_state :: State
  cb_failures :: int
  cb_lastFailureTime :: Time

definition circuitbreaker_New :: "int \<Rightarrow> Duration \<Rightarrow> CircuitBreaker" where
  "circuitbreaker_New maxFailures timeout =
     \<lparr>cb_maxFailures = maxFailures, cb_timeout = timeout, cb_state = StateClosed,
      cb_failures = 0, cb_lastFailureTime = zeroTime\<rparr>"

definition setState :: "CircuitBreaker \<Rightarrow> State \<Rightarrow> CircuitBreaker" where
  "setState cb s = cb\<lparr>cb_state := s\<rparr>"

text \<open>
  \<open>Allow\<close> has two steps. The first is the atomic load of the state, which is done
  without the lock: \<open>Allow_load\<close>. The second is the \<open>switch\<close> on the value that was
  loaded: \<open>Allow_switch\<close>. Its branch for an open breaker takes the lock and compares the
  time since the last failure with the timeout; it does not read the state again, so it
  acts on the breaker as it is when the lock is taken, which other calls may have changed
  since the load. The branches for a closed and for a half-open breaker return at once.
\<close>

definition Allow_load :: "CircuitBreaker \<Rightarrow> State" where
  "Allow_load cb = cb_state cb"

definition Allow_switch :: "State \<Rightarrow> CircuitBreaker \<Rightarrow> Time \<Rightarrow> bool \<times> CircuitBreaker" where
  "Allow_switch state cb now =
     (case state of
        StateClosed \<Rightarrow> (True, cb)
      | StateOpen \<Rightarrow>
          if Since now (cb_lastFailureTime cb) \<ge> cb_timeout cb
          then (True, setState cb StateHalfOpen)
          else (False, cb)
      | StateHalfOpen \<Rightarrow> (False, cb))"

text \<open>A call of \<open>Allow\<close> that runs with no other call between its two steps.\<close>

definition CircuitBreaker_Allow :: "CircuitBreaker \<Rightarrow> Time \<Rightarrow> bool \<times> CircuitBreaker" where
  "CircuitBreaker_Allow cb now = Allow_switch (Allow_load cb) cb now"

definition CircuitBreaker_RecordSuccess :: "CircuitBreaker \<Rightarrow> CircuitBreaker" where
  "CircuitBreaker_RecordSuccess cb =
     (let cb1 = cb\<lparr>cb_failures := 0\<rparr>
      in if cb_state cb1 = StateHalfOpen then setState cb1 StateClosed else cb1)"

definition CircuitBreaker_RecordFailure :: "CircuitBreaker \<Rightarrow> Time \<Rightarrow> CircuitBreaker" where
  "CircuitBreaker_RecordFailure cb now =
     (let cb1 = cb\<lparr>cb_failures := wrap64 (cb_failures cb + 1), cb_lastFailureTime := now\<rparr>;
          state = cb_state cb1
      in if state = StateHalfOpen then setState cb1 StateOpen
         else if cb_failures cb1 \<ge> cb_maxFailures cb1 then setState cb1 StateOpen
         else cb1)"

text \<open>The operations a caller can apply to a breaker, and one step of each.\<close>

datatype cb_op = OpAllow Time | OpRecordSuccess | OpRecordFailure Time

fun cb_step :: "CircuitBreaker \<Rightarrow> cb_op \<Rightarrow> CircuitBreaker" where
  "cb_step cb (OpAllow now) = snd (CircuitBreaker_Allow cb now)"
| "cb_step cb OpRecordSuccess = CircuitBreaker_RecordSuccess cb"
| "cb_step cb (OpRecordFailure now) = CircuitBreaker_RecordFailure cb now"

text \<open>
  Calls from several goroutines. \<open>RecordSuccess\<close> and \<open>RecordFailure\<close> hold the lock from
  their first statement to their last, so each is one event. A call of \<open>Allow\<close> by the
  caller \<open>g\<close> is two events, \<open>Load g\<close> and \<open>Switch g now\<close>, and events of other callers
  may come between them. A run keeps the breaker, the state that each caller has loaded
  and not yet switched on, and the returns of the finished \<open>Allow\<close> calls in the order
  in which they finished.
\<close>

datatype cb_event = Load nat | Switch nat Time | Success | Failure Time

record cb_run =
  run_breaker :: CircuitBreaker
  run_loaded :: "nat \<rightharpoonup> State"
  run_returns :: "(nat \<times> bool) list"

fun cb_event_step :: "cb_run \<Rightarrow> cb_event \<Rightarrow> cb_run" where
  "cb_event_step r (Load g) =
     r\<lparr>run_loaded := (run_loaded r)(g \<mapsto> Allow_load (run_breaker r))\<rparr>"
| "cb_event_step r (Switch g now) =
     (case run_loaded r g of
        None \<Rightarrow> r
      | Some state \<Rightarrow>
          (let (ok, cb1) = Allow_switch state (run_breaker r) now
           in r\<lparr>run_breaker := cb1, run_loaded := (run_loaded r)(g := None),
                run_returns := run_returns r @ [(g, ok)]\<rparr>))"
| "cb_event_step r Success = r\<lparr>run_breaker := CircuitBreaker_RecordSuccess (run_breaker r)\<rparr>"
| "cb_event_step r (Failure now) =
     r\<lparr>run_breaker := CircuitBreaker_RecordFailure (run_breaker r) now\<rparr>"

definition cb_events :: "CircuitBreaker \<Rightarrow> cb_event list \<Rightarrow> cb_run" where
  "cb_events cb evs =
     foldl cb_event_step \<lparr>run_breaker = cb, run_loaded = Map.empty, run_returns = []\<rparr> evs"

section \<open>Load balancers\<close>

text \<open>A run-time panic of the Go runtime is a value of the model.\<close>

datatype panic = IntegerDivideByZero

subsection \<open>Round robin\<close>

record RoundRobin =
  rr_backends :: "string list"
  rr_counter :: "64 word"

definition NewRoundRobin :: "string list \<Rightarrow> RoundRobin" where
  "NewRoundRobin backends = \<lparr>rr_backends = backends, rr_counter = 0\<rparr>"

text \<open>
  \<open>atomic.AddUint64\<close> returns the incremented counter, which wraps at \<open>2^64\<close>. The
  remainder by a zero length panics; the index is below the length otherwise.
\<close>

definition RoundRobin_Next :: "RoundRobin \<Rightarrow> panic + (string \<times> RoundRobin)" where
  "RoundRobin_Next rr =
     (let idx = rr_counter rr + 1;
          rr1 = rr\<lparr>rr_counter := idx\<rparr>
      in if length (rr_backends rr1) = 0 then Inl IntegerDivideByZero
         else Inr (rr_backends rr1 ! (unat idx mod length (rr_backends rr1)), rr1))"

subsection \<open>Least connections\<close>

record leastConnEntry =
  lc_addr :: string
  lc_active :: int

record LeastConnections =
  lc_entries :: "leastConnEntry list"

definition NewLeastConnections :: "string list \<Rightarrow> LeastConnections" where
  "NewLeastConnections backends =
     \<lparr>lc_entries = map (\<lambda>addr. \<lparr>lc_addr = addr, lc_active = 0\<rparr>) backends\<rparr>"

text \<open>The scan of \<open>Next\<close> from index \<open>i\<close> on, over the entries not yet visited.\<close>

fun lc_scan :: "leastConnEntry list \<Rightarrow> nat \<Rightarrow> nat \<Rightarrow> int \<Rightarrow> nat" where
  "lc_scan [] i bestIdx bestCount = bestIdx"
| "lc_scan (e # es) i bestIdx bestCount =
     (let count = lc_active e
      in if count < bestCount then lc_scan es (i + 1) i count
         else lc_scan es (i + 1) bestIdx bestCount)"

definition LeastConnections_Next :: "LeastConnections \<Rightarrow> string \<times> LeastConnections" where
  "LeastConnections_Next lc =
     (case lc_entries lc of
        [] \<Rightarrow> ([], lc)
      | e # es \<Rightarrow>
          let bestIdx = lc_scan es 1 0 (lc_active e);
              best = lc_entries lc ! bestIdx;
              entries = (lc_entries lc)[bestIdx := best\<lparr>lc_active := wrap64 (lc_active best + 1)\<rparr>]
          in (lc_addr best, lc\<lparr>lc_entries := entries\<rparr>))"

subsection \<open>Smooth weighted round robin\<close>

record WeightedBackend =
  Addr :: string
  Weight :: int

record weightedEntry =
  we_addr :: string
  we_weight :: int
  currentWeight :: int

record WeightedRoundRobin =
  wrr_entries :: "weightedEntry list"
  totalWeight :: int

text \<open>The loop of the constructor: one entry per backend, and the running total.\<close>

fun wrr_build :: "WeightedBackend list \<Rightarrow> int \<Rightarrow> weightedEntry list \<times> int" where
  "wrr_build [] tot = ([], tot)"
| "wrr_build (b # bs) tot =
     (let w = (if Weight b \<le> 0 then 1 else Weight b);
          (es, t) = wrr_build bs (wrap64 (tot + w))
      in (\<lparr>we_addr = Addr b, we_weight = w, currentWeight = 0\<rparr> # es, t))"

definition NewWeightedRoundRobin :: "WeightedBackend list \<Rightarrow> WeightedRoundRobin" where
  "NewWeightedRoundRobin backends =
     (let (entries, tot) = wrr_build backends 0
      in \<lparr>wrr_entries = entries, totalWeight = tot\<rparr>)"

text \<open>
  The loop of \<open>Next\<close>: at index \<open>i\<close> it adds the weight of entry \<open>i\<close> to its current
  weight in place and then compares it with the current weight of the best entry so far.
\<close>

function wrr_loop :: "weightedEntry list \<Rightarrow> nat \<Rightarrow> nat \<Rightarrow> weightedEntry list \<times> nat" where
  "wrr_loop es i bestIdx =
     (if i < length es then
        let e = es ! i;
            es1 = es[i := e\<lparr>currentWeight := wrap64 (currentWeight e + we_weight e)\<rparr>]
        in wrr_loop es1 (i + 1)
             (if currentWeight (es1 ! i) > currentWeight (es1 ! bestIdx) then i else bestIdx)
      else (es, bestIdx))"
  by pat_completeness auto
termination
  by (relation "measure (\<lambda>(es, i, bestIdx). length es - i)") auto

definition WeightedRoundRobin_Next :: "WeightedRoundRobin \<Rightarrow> string \<times> WeightedRoundRobin" where
  "WeightedRoundRobin_Next wrr =
     (if length (wrr_entries wrr) = 0 then ([], wrr)
      else
        let (es, bestIdx) = wrr_loop (wrr_entries wrr) 0 0;
            best = es ! bestIdx;
            es1 = es[bestIdx :=
                    best\<lparr>currentWeight := wrap64 (currentWeight best - totalWeight wrr)\<rparr>]
        in (we_addr (es1 ! bestIdx), wrr\<lparr>wrr_entries := es1\<rparr>))"

text \<open>The addresses returned by \<open>n\<close> consecutive calls of \<open>Next\<close>, oldest first.\<close>

fun wrr_calls :: "nat \<Rightarrow> WeightedRoundRobin \<Rightarrow> string list \<times> WeightedRoundRobin" where
  "wrr_calls 0 wrr = ([], wrr)"
| "wrr_calls (Suc n) wrr =
     (let (a, wrr1) = WeightedRoundRobin_Next wrr;
          (as, wrr2) = wrr_calls n wrr1
      in (a # as, wrr2))"

subsection \<open>Consistent hash\<close>

text \<open>
  \<open>crc32.ChecksumIEEE\<close> is an argument \<open>crc\<close> of the model. The ring holds plain
  32-bit values, so every correct sort gives the list that \<open>sort\<close> gives. A key that is
  not in a Go map reads as the empty string.
\<close>

record ConsistentHash =
  ring :: "32 word list"
  nodeMap :: "32 word \<rightharpoonup> string"
  replicas :: int

text \<open>The decimal digits of a natural number, as \<open>%d\<close> prints them.\<close>

fun digits :: "nat \<Rightarrow> string" where
  "digits n = (if n < 10 then [char_of (48 + n)]
               else digits (n div 10) @ [char_of (48 + n mod 10)])"

definition ch_add_one :: "(string \<Rightarrow> 32 word) \<Rightarrow> string \<Rightarrow> ConsistentHash \<Rightarrow> nat \<Rightarrow> ConsistentHash" where
  "ch_add_one crc addr ch i =
     (let key = addr @ ''-'' @ digits i;
          h = crc key
      in ch\<lparr>ring := ring ch @ [h], nodeMap := (nodeMap ch)(h \<mapsto> addr)\<rparr>)"

definition ch_add :: "(string \<Rightarrow> 32 word) \<Rightarrow> ConsistentHash \<Rightarrow> string \<Rightarrow> ConsistentHash" where
  "ch_add crc ch addr = foldl (ch_add_one crc addr) ch [0 ..< nat (replicas ch)]"

definition NewConsistentHash :: "(string \<Rightarrow> 32 word) \<Rightarrow> int \<Rightarrow> string list \<Rightarrow> ConsistentHash" where
  "NewConsistentHash crc n backends =
     (let ch = foldl (ch_add crc) \<lparr>ring = [], nodeMap = Map.empty, replicas = n\<rparr> backends
      in ch\<lparr>ring := sort (ring ch)\<rparr>)"

text \<open>\<open>sort.Search n f\<close>: the binary search of the library, between \<open>i\<close> and \<open>j\<close>.\<close>

function Search_loop :: "(nat \<Rightarrow> bool) \<Rightarrow> nat \<Rightarrow> nat \<Rightarrow> nat" where
  "Search_loop f i j =
     (if i < j then
        let h = (i + j) div 2
        in if \<not> f h then Search_loop f (h + 1) j else Search_loop f i h
      else i)"
  by pat_completeness auto
termination
  by (relation "measure (\<lambda>(f, i, j). j - i)") auto

definition Search :: "nat \<Rightarrow> (nat \<Rightarrow> bool) \<Rightarrow> nat" where
  "Search n f = Search_loop f 0 n"

definition NextWithKey :: "(string \<Rightarrow> 32 word) \<Rightarrow> ConsistentHash \<Rightarrow> string \<Rightarrow> string" where
  "NextWithKey crc ch key =
     (if length (ring ch) = 0 then []
      else
        let h = crc key;
            idx = Search (length (ring ch)) (\<lambda>i. ring ch ! i \<ge> h);
            idx1 = (if idx = length (ring ch) then 0 else idx)
        in case nodeMap ch (ring ch ! idx1) of None \<Rightarrow> [] | Some addr \<Rightarrow> addr)"

section \<open>Router\<close>

text \<open>
  A Go \<open>map[string]string\<close> of required headers is the list of its entries (the keys are
  pairwise distinct in a map), and \<open>len\<close> of the map is the length of that list. A request
  is its URL path and the function \<open>req.Header.Get\<close>, which gives the empty string for a
  header that is absent.
\<close>

record Route =
  Path :: string
  Headers :: "(string \<times> string) list"
  Backends :: "string list"

record RouteConfig =
  rc_Path :: string
  rc_Headers :: "(string \<times> string) list"
  rc_Backends :: "string list"

record GatewayConfig =
  Routes :: "RouteConfig list"

record Router =
  routes :: "Route list"

record Request =
  URL_Path :: string
  Header_Get :: "string \<Rightarrow> string"

definition HasPrefix :: "string \<Rightarrow> string \<Rightarrow> bool" where
  "HasPrefix s pre = (length s \<ge> length pre \<and> take (length pre) s = pre)"

definition HasSuffix :: "string \<Rightarrow> string \<Rightarrow> bool" where
  "HasSuffix s suf = (length s \<ge> length suf \<and> drop (length s - length suf) s = suf)"

definition TrimSuffix :: "string \<Rightarrow> string \<Rightarrow> string" where
  "TrimSuffix s suf = (if HasSuffix s suf then take (length s - length suf) s else s)"

definition compile_route :: "RouteConfig \<Rightarrow> Route" where
  "compile_route rc =
     (let path = TrimSuffix (rc_Path rc) ''/*'';
          path1 = TrimSuffix path ''*''
      in \<lparr>Path = path1, Headers = rc_Headers rc, Backends = rc_Backends rc\<rparr>)"

text \<open>The comparison that \<open>New\<close> hands to \<open>sort.Slice\<close>.\<close>

definition route_less :: "Route \<Rightarrow> Route \<Rightarrow> bool" where
  "route_less a b =
     (if length (Path a) \<noteq> length (Path b) then length (Path a) > length (Path b)
      else length (Headers a) > length (Headers b))"

text \<open>
  \<open>sort.Slice\<close> belongs to the Go library and is not stable, so the order it gives to
  routes that compare equal is not fixed by the source. It is an argument \<open>sortSlice\<close> of
  the model. What the library promises of it for a strict weak order \<open>lt\<close> is
  \<open>sorts_with\<close>: the result is a rearrangement of the input in which no later element
  is less than an earlier one.
\<close>

definition sorts_with :: "('a \<Rightarrow> 'a \<Rightarrow> bool) \<Rightarrow> ('a list \<Rightarrow> 'a list) \<Rightarrow> bool" where
  "sorts_with lt srt =
     (\<forall>xs. mset (srt xs) = mset xs \<and> sorted_wrt (\<lambda>a b. \<not> lt b a) (srt xs))"

definition router_New ::
  "((Route \<Rightarrow> Route \<Rightarrow> bool) \<Rightarrow> Route list \<Rightarrow> Route list) \<Rightarrow> GatewayConfig \<Rightarrow> Router" where
  "router_New sortSlice cfg = \<lparr>routes = sortSlice route_less (map compile_route (Routes cfg))\<rparr>"

fun matchHeaders :: "Request \<Rightarrow> (string \<times> string) list \<Rightarrow> bool" where
  "matchHeaders req [] = True"
| "matchHeaders req ((key, v) # required) =
     (let got = Header_Get req key
      in if v = ''*'' then (if got = [] then False else matchHeaders req required)
         else (if got \<noteq> v then False else matchHeaders req required))"

fun Match_loop :: "Route list \<Rightarrow> Request \<Rightarrow> Route option" where
  "Match_loop [] req = None"
| "Match_loop (route # rest) req =
     (if \<not> HasPrefix (URL_Path req) (Path route) then Match_loop rest req
      else if \<not> matchHeaders req (Headers route) then Match_loop rest req
      else Some route)"

definition Match :: "Router \<Rightarrow> Request \<Rightarrow> Route option" where
  "Match r req = Match_loop (routes r) req"

text \<open>
  What the specification asks of a route for a request: its path prefix is a prefix of
  the request path, and every required header matches, where the value \<open>*\<close> asks for a
  non-empty header value and any other value for an equal one.
\<close>

definition header_matches :: "Request \<Rightarrow> string \<times> string \<Rightarrow> bool" where
  "header_matches req kv =
     (if snd kv = ''*'' then Header_Get req (fst kv) \<noteq> [] else Header_Get req (fst kv) = snd kv)"

definition route_matches :: "Request \<Rightarrow> Route \<Rightarrow> bool" where
  "route_matches req rt =
     ((\<exists>rest. URL_Path req = Path rt @ rest) \<and> (\<forall>kv \<in> set (Headers rt). header_matches req kv))"

text \<open>
  The specificity order of the route table: a longer path prefix comes first, and among
  equal lengths the route with more required headers comes first.
\<close>

definition at_least_as_specific :: "Route \<Rightarrow> Route \<Rightarrow> bool" where
  "at_least_as_specific a b =
     (length (Path a) > length (Path b)
      \<or> (length (Path a) = length (Path b) \<and> length (Headers a) \<ge> length (Headers b)))"

text \<open>An insertion sort, one function that meets \<open>sorts_with\<close>.\<close>

fun insert_by :: "('a \<Rightarrow> 'a \<Rightarrow> bool) \<Rightarrow> 'a \<Rightarrow> 'a list \<Rightarrow> 'a list" where
  "insert_by lt x [] = [x]"
| "insert_by lt x (y # ys) = (if lt y x then y # insert_by lt x ys else x # y # ys)"

fun insertion_sort :: "('a \<Rightarrow> 'a \<Rightarrow> bool) \<Rightarrow> 'a list \<Rightarrow> 'a list" where
  "insertion_sort lt [] = []"
| "insertion_sort lt (x # xs) = insert_by lt x (insertion_sort lt xs)"

section \<open>Configuration and hot reload\<close>

text \<open>
  The errors of \<open>LoadConfig\<close>: the file cannot be read, the YAML cannot be decoded, or the
  decoded configuration is not valid. The messages of the library errors are strings.
\<close>

datatype config_error =
    ReadConfigError string
  | ParseConfigError string
  | NoRoutes
  | EmptyPath nat
  | NoBackends nat string

text \<open>
  The file system and the YAML decoder at the moment of a call: \<open>os.Stat\<close> gives an
  error or the modification time of the file, \<open>os.ReadFile\<close> an error or its bytes,
  \<open>yaml.Unmarshal\<close> an error or the decoded configuration.
\<close>

record Env =
  env_Stat :: "string \<Rightarrow> string + Time"
  env_ReadFile :: "string \<Rightarrow> string + string"
  env_Unmarshal :: "string \<Rightarrow> string + GatewayConfig"

fun validate_routes :: "RouteConfig list \<Rightarrow> nat \<Rightarrow> config_error option" where
  "validate_routes [] i = None"
| "validate_routes (route # rest) i =
     (if rc_Path route = [] then Some (EmptyPath i)
      else if length (rc_Backends route) = 0 then Some (NoBackends i (rc_Path route))
      else validate_routes rest (i + 1))"

definition validateConfig :: "GatewayConfig \<Rightarrow> config_error option" where
  "validateConfig cfg =
     (if length (Routes cfg) = 0 then Some NoRoutes else validate_routes (Routes cfg) 0)"

definition ParseConfig :: "Env \<Rightarrow> string \<Rightarrow> config_error + GatewayConfig" where
  "ParseConfig env data =
     (case env_Unmarshal env data of
        Inl err \<Rightarrow> Inl (ParseConfigError err)
      | Inr cfg \<Rightarrow>
          (case validateConfig cfg of Some err \<Rightarrow> Inl err | None \<Rightarrow> Inr cfg))"

definition LoadConfig :: "Env \<Rightarrow> string \<Rightarrow> config_error + GatewayConfig" where
  "LoadConfig env path =
     (case env_ReadFile env path of
        Inl err \<Rightarrow> Inl (ReadConfigError err)
      | Inr data \<Rightarrow> ParseConfig env data)"

record HotReloader =
  configPath :: string
  interval :: Duration
  hr_router :: Router
  lastModTime :: Time

definition HotReloader_Router :: "HotReloader \<Rightarrow> Router" where
  "HotReloader_Router hr = hr_router hr"

text \<open>
  One check of the poll loop. The log lines it prints are left out; the reloader it
  returns is the one the next check and every reader see.
\<close>

definition checkAndReload ::
  "((Route \<Rightarrow> Route \<Rightarrow> bool) \<Rightarrow> Route list \<Rightarrow> Route list) \<Rightarrow> Env \<Rightarrow> HotReloader \<Rightarrow> HotReloader" where
  "checkAndReload sortSlice env hr =
     (case env_Stat env (configPath hr) of
        Inl err \<Rightarrow> hr
      | Inr modTime \<Rightarrow>
          if \<not> (modTime > lastModTime hr) then hr
          else
            (case LoadConfig env (configPath hr) of
               Inl err \<Rightarrow> hr
             | Inr cfg \<Rightarrow> hr\<lparr>hr_router := router_New sortSlice cfg, lastModTime := modTime\<rparr>))"

section \<open>Floating point\<close>

text \<open>
  A \<open>float64\<close> is a finite rational, an infinity or a NaN. Every arithmetic operation
  computes the exact result and rounds it with \<open>round64\<close> to the nearest binary64 value,
  ties to even, as IEEE 754 prescribes: 53 significant bits, exponents from \<open>-1022\<close> to
  \<open>1023\<close>, subnormal values in steps of \<open>2^-1074\<close>, and an infinity for a rounded
  magnitude of \<open>2^1024\<close> or more. Zero has no sign in the model; a zero divisor counts as
  positive zero.
\<close>

datatype f64 = Fin rat | PInf | NInf | NaN

text \<open>For \<open>x > 0\<close>, \<open>flog2 x\<close> is the integer \<open>e\<close> with \<open>2^e \<le> x < 2^(e+1)\<close>.\<close>

definition flog2 :: "rat \<Rightarrow> int" where
  "flog2 x = (let (a, b) = quotient_of x; d = bitlen a - bitlen b
              in if 2 powi d \<le> x then d else d - 1)"

text \<open>Rounding to the nearest integer, ties to the even one.\<close>

definition rhe :: "rat \<Rightarrow> int" where
  "rhe r = (let f = \<lfloor>r\<rfloor>; d = r - of_int f
            in if d < 1 / 2 then f else if d > 1 / 2 then f + 1
               else if even f then f else f + 1)"

text \<open>The exponent of the spacing of the binary64 values around \<open>x > 0\<close>.\<close>

definition ulp_exp :: "rat \<Rightarrow> int" where
  "ulp_exp x = (let e = flog2 x in if e < - 1022 then - 1074 else e - 52)"

definition round_pos :: "rat \<Rightarrow> rat" where
  "round_pos x = of_int (rhe (x / 2 powi ulp_exp x)) * 2 powi ulp_exp x"

definition round64 :: "rat \<Rightarrow> f64" where
  "round64 x = (if x = 0 then Fin 0
     else let y = round_pos \<bar>x\<bar>
          in if y \<ge> 2 ^ 1024 then (if x > 0 then PInf else NInf)
             else Fin (if x > 0 then y else - y))"

fun f64_neg :: "f64 \<Rightarrow> f64" where
  "f64_neg (Fin a) = Fin (- a)"
| "f64_neg PInf = NInf"
| "f64_neg NInf = PInf"
| "f64_neg NaN = NaN"

fun f64_add :: "f64 \<Rightarrow> f64 \<Rightarrow> f64" where
  "f64_add (Fin a) (Fin b) = round64 (a + b)"
| "f64_add NaN y = NaN"
| "f64_add x NaN = NaN"
| "f64_add PInf NInf = NaN"
| "f64_add NInf PInf = NaN"
| "f64_add PInf y = PInf"
| "f64_add NInf y = NInf"
| "f64_add x PInf = PInf"
| "f64_add x NInf = NInf"

definition f64_sub :: "f64 \<Rightarrow> f64 \<Rightarrow> f64" where
  "f64_sub x y = f64_add x (f64_neg y)"

fun f64_mul :: "f64 \<Rightarrow> f64 \<Rightarrow> f64" where
  "f64_mul (Fin a) (Fin b) = round64 (a * b)"
| "f64_mul NaN y = NaN"
| "f64_mul x NaN = NaN"
| "f64_mul (Fin a) PInf = (if a = 0 then NaN else if a > 0 then PInf else NInf)"
| "f64_mul (Fin a) NInf = (if a = 0 then NaN else if a > 0 then NInf else PInf)"
| "f64_mul PInf (Fin b) = (if b = 0 then NaN else if b > 0 then PInf else NInf)"
| "f64_mul NInf (Fin b) = (if b = 0 then NaN else if b > 0 then NInf else PInf)"
| "f64_mul PInf PInf = PInf"
| "f64_mul PInf NInf = NInf"
| "f64_mul NInf PInf = NInf"
| "f64_mul NInf NInf = PInf"

fun f64_div :: "f64 \<Rightarrow> f64 \<Rightarrow> f64" where
  "f64_div (Fin a) (Fin b) =
     (if b = 0 then (if a = 0 then NaN else if a > 0 then PInf else NInf)
      else round64 (a / b))"
| "f64_div NaN y = NaN"
| "f64_div x NaN = NaN"
| "f64_div (Fin a) PInf = Fin 0"
| "f64_div (Fin a) NInf = Fin 0"
| "f64_div PInf (Fin b) = (if b \<ge> 0 then PInf else NInf)"
| "f64_div NInf (Fin b) = (if b \<ge> 0 then NInf else PInf)"
| "f64_div PInf y = NaN"
| "f64_div NInf y = NaN"

text \<open>Comparisons; every comparison with a NaN is false.\<close>

fun f64_lt :: "f64 \<Rightarrow> f64 \<Rightarrow> bool" where
  "f64_lt (Fin a) (Fin b) = (a < b)"
| "f64_lt NaN y = False"
| "f64_lt x NaN = False"
| "f64_lt x NInf = False"
| "f64_lt PInf y = False"
| "f64_lt NInf y = True"
| "f64_lt x PInf = True"

definition f64_gt :: "f64 \<Rightarrow> f64 \<Rightarrow> bool" where
  "f64_gt x y = f64_lt y x"

definition f64_ge :: "f64 \<Rightarrow> f64 \<Rightarrow> bool" where
  "f64_ge x y = (x \<noteq> NaN \<and> y \<noteq> NaN \<and> \<not> f64_lt x y)"

text \<open>The conversion \<open>float64(n)\<close> of an integer.\<close>

definition f64_of_int :: "int \<Rightarrow> f64" where
  "f64_of_int n = round64 (of_int n)"

text \<open>
  The conversion of a \<open>float64\<close> to a 64-bit integer truncates towards zero. For a value
  that no 64-bit integer represents (out of range, an infinity, a NaN) the language
  leaves the result to the implementation; \<open>impl\<close> is that result.
\<close>

definition f64_to_int64 :: "(f64 \<Rightarrow> int) \<Rightarrow> f64 \<Rightarrow> int" where
  "f64_to_int64 impl x =
     (case x of
        Fin r \<Rightarrow>
          (let t = (if r \<ge> 0 then \<lfloor>r\<rfloor> else \<lceil>r\<rceil>)
           in if - (2 ^ 63) \<le> t \<and> t < 2 ^ 63 then t else impl x)
      | _ \<Rightarrow> impl x)"

text \<open>
  The amd64 compiler converts with \<open>CVTTSD2SQ\<close>, which gives the smallest 64-bit
  integer for every such value.
\<close>

definition amd64_conversion :: "f64 \<Rightarrow> int" where
  "amd64_conversion x = - (2 ^ 63)"

text \<open>Go's integer division truncates towards zero, and the remainder has the sign of the dividend.\<close>

definition go_quot :: "int \<Rightarrow> int \<Rightarrow> int" where
  "go_quot a b = sgn a * sgn b * (\<bar>a\<bar> div \<bar>b\<bar>)"

definition go_rem :: "int \<Rightarrow> int \<Rightarrow> int" where
  "go_rem a b = sgn a * (\<bar>a\<bar> mod \<bar>b\<bar>)"

text \<open>\<open>Duration.Seconds\<close>: the whole seconds plus the nanoseconds divided by \<open>1e9\<close>.\<close>

definition Seconds :: "Duration \<Rightarrow> f64" where
  "Seconds d =
     (let sec = go_quot d 1000000000;
          nsec = go_rem d 1000000000
      in f64_add (f64_of_int sec) (f64_div (f64_of_int nsec) (Fin 1000000000)))"

section \<open>Rate limiters\<close>

subsection \<open>Token bucket\<close>

record TokenBucket =
  tb_tokens :: f64
  tb_capacity :: f64
  tb_rate :: f64
  tb_lastRefill :: Time

definition NewTokenBucket :: "int \<Rightarrow> f64 \<Rightarrow> Time \<Rightarrow> TokenBucket" where
  "NewTokenBucket capacity rate now =
     \<lparr>tb_tokens = f64_of_int capacity, tb_capacity = f64_of_int capacity, tb_rate = rate,
      tb_lastRefill = now\<rparr>"

definition TokenBucket_Allow ::
  "(f64 \<Rightarrow> int) \<Rightarrow> TokenBucket \<Rightarrow> Time \<Rightarrow> (bool \<times> Duration) \<times> TokenBucket" where
  "TokenBucket_Allow impl tb now =
     (let elapsed = Seconds (Sub now (tb_lastRefill tb));
          tokens1 = f64_add (tb_tokens tb) (f64_mul elapsed (tb_rate tb));
          tokens2 = (if f64_gt tokens1 (tb_capacity tb) then tb_capacity tb else tokens1);
          tb1 = tb\<lparr>tb_tokens := tokens2, tb_lastRefill := now\<rparr>
      in if f64_ge tokens2 (Fin 1)
         then ((True, 0), tb1\<lparr>tb_tokens := f64_sub tokens2 (Fin 1)\<rparr>)
         else
           let deficit = f64_sub (Fin 1) tokens2;
               wait = f64_to_int64 impl
                        (f64_mul (f64_div deficit (tb_rate tb)) (f64_of_int 1000000000))
           in ((False, wait), tb1))"

text \<open>The results of consecutive calls of \<open>Allow\<close> at the given times, oldest first.\<close>

fun tb_calls ::
  "(f64 \<Rightarrow> int) \<Rightarrow> TokenBucket \<Rightarrow> Time list \<Rightarrow> (bool \<times> Duration) list \<times> TokenBucket" where
  "tb_calls impl tb [] = ([], tb)"
| "tb_calls impl tb (now # ts) =
     (let (r, tb1) = TokenBucket_Allow impl tb now;
          (rs, tb2) = tb_calls impl tb1 ts
      in (r # rs, tb2))"

subsection \<open>Sliding window\<close>

record SlidingWindow =
  sw_maxRequests :: int
  sw_windowSize :: Duration
  sw_windowStart :: Time
  sw_prevCount :: int
  sw_currCount :: int

definition NewSlidingWindow :: "int \<Rightarrow> Duration \<Rightarrow> Time \<Rightarrow> SlidingWindow" where
  "NewSlidingWindow maxRequests windowSize now =
     \<lparr>sw_maxRequests = maxRequests, sw_windowSize = windowSize, sw_windowStart = now,
      sw_prevCount = 0, sw_currCount = 0\<rparr>"




section \<open>Health checks\<close>

subsection \<open>Active checker\<close>

datatype Status = StatusUnknown | StatusHealthy | StatusUnhealthy

record backendStatus =
  bs_status :: Status
  consecutiveSuccesses :: int
  consecutiveFailures :: int

record ActiveChecker =
  ac_backends :: "string \<rightharpoonup> backendStatus"
  healthyThreshold :: int
  unhealthyThreshold :: int

definition ActiveChecker_IsHealthy :: "ActiveChecker \<Rightarrow> string \<Rightarrow> bool" where
  "ActiveChecker_IsHealthy ac backend =
     (case ac_backends ac backend of
        None \<Rightarrow> True
      | Some bs \<Rightarrow> bs_status bs = StatusHealthy \<or> bs_status bs = StatusUnknown)"

subsection \<open>Passive checker\<close>

record requestOutcome =
  timestamp :: Time
  success :: bool

record PassiveChecker =
  pc_backends :: "string \<rightharpoonup> requestOutcome list"
  windowSize :: Duration
  errorThreshold :: f64
  minRequests :: int

text \<open>
  The trimming loop advances over the leading outcomes that are older than the cutoff and
  keeps the rest of the slice.
\<close>

definition trim :: "requestOutcome list \<Rightarrow> Time \<Rightarrow> requestOutcome list" where
  "trim outcomes cutoff = dropWhile (\<lambda>outcome. timestamp outcome < cutoff) outcomes"

definition count_failures :: "requestOutcome list \<Rightarrow> int" where
  "count_failures outcomes = int (length (filter (\<lambda>outcome. \<not> success outcome) outcomes))"

definition PassiveChecker_record ::
  "PassiveChecker \<Rightarrow> Time \<Rightarrow> string \<Rightarrow> bool \<Rightarrow> PassiveChecker" where
  "PassiveChecker_record pc now backend ok =
     (let outcomes = (case pc_backends pc backend of None \<Rightarrow> [] | Some os \<Rightarrow> os);
          outcomes1 = outcomes @ [\<lparr>timestamp = now, success = ok\<rparr>];
          cutoff = now + wrap64 (- windowSize pc)
      in pc\<lparr>pc_backends := (pc_backends pc)(backend \<mapsto> trim outcomes1 cutoff)\<rparr>)"

definition PassiveChecker_IsHealthy ::
  "PassiveChecker \<Rightarrow> Time \<Rightarrow> string \<Rightarrow> bool \<times> PassiveChecker" where
  "PassiveChecker_IsHealthy pc now backend =
     (case pc_backends pc backend of
        None \<Rightarrow> (True, pc)
      | Some outcomes \<Rightarrow>
          (let cutoff = now + wrap64 (- windowSize pc);
               outcomes1 = trim outcomes cutoff;
               pc1 = pc\<lparr>pc_backends := (pc_backends pc)(backend \<mapsto> outcomes1)\<rparr>
           in if int (length outcomes1) < minRequests pc then (True, pc1)
              else
                let failures = count_failures outcomes1;
                    errorRate = f64_div (f64_of_int failures) (f64_of_int (int (length outcomes1)))
                in (f64_lt errorRate (errorThreshold pc), pc1)))"

subsection \<open>Combined checker and healthy pool\<close>

record CombinedChecker =
  cc_active :: ActiveChecker
  cc_passive :: PassiveChecker



record HealthyPool =
  hp_all :: "string list"
  checker :: CombinedChecker




text \<open>
  What the specification calls the combined health filter: a backend passes at \<open>now\<close>
  when the active check and the passive check of the pool's checker both pass. The
  backends that pass in a call are those that pass at the reading of their own check,
  in the order of the configured list.
\<close>

definition passes_filter :: "HealthyPool \<Rightarrow> Time \<Rightarrow> string \<Rightarrow> bool" where
  "passes_filter hp now backend =
     (ActiveChecker_IsHealthy (cc_active (checker hp)) backend
      \<and> fst (PassiveChecker_IsHealthy (cc_passive (checker hp)) now backend))"

definition passing :: "HealthyPool \<Rightarrow> (nat \<Rightarrow> Time) \<Rightarrow> string list" where
  "passing hp clock =
     map snd (filter (\<lambda>(i, backend). passes_filter hp (clock i) backend)
                     (enumerate 0 (hp_all hp)))"


text \<open>
  For the analysis of \<open>Next\<close>: the step of the loop on one entry, the configured weight as
  the constructor reads it, the sum of those weights, and the invariant of the balancer.
  The invariant says that the addresses are distinct, every weight is at least 1,
  \<open>totalWeight\<close> is the sum of the weights, the current weights sum to zero and each
  exceeds \<open>- totalWeight\<close>, and the number of entries times the total weight is inside
  the 64-bit range.
\<close>

definition bump64 :: "weightedEntry \<Rightarrow> weightedEntry" where
  "bump64 e = e\<lparr>currentWeight := wrap64 (currentWeight e + we_weight e)\<rparr>"

definition effective_weight :: "WeightedBackend \<Rightarrow> int" where
  "effective_weight b = (if Weight b \<le> 0 then 1 else Weight b)"

definition sum_weights :: "WeightedBackend list \<Rightarrow> int" where
  "sum_weights bs = sum_list (map effective_weight bs)"

definition wrr_inv :: "WeightedRoundRobin \<Rightarrow> bool" where
  "wrr_inv wrr =
     (distinct (map we_addr (wrr_entries wrr))
      \<and> (\<forall>e \<in> set (wrr_entries wrr). 1 \<le> we_weight e)
      \<and> sum_list (map we_weight (wrr_entries wrr)) = totalWeight wrr
      \<and> sum_list (map currentWeight (wrr_entries wrr)) = 0
      \<and> (\<forall>e \<in> set (wrr_entries wrr). - totalWeight wrr < currentWeight e)
      \<and> int (length (wrr_entries wrr)) * totalWeight wrr < 2 ^ 63)"

text \<open>The entry after a call that returned the address \<open>a\<close>.\<close>

definition after_pick :: "string \<Rightarrow> int \<Rightarrow> weightedEntry \<Rightarrow> weightedEntry" where
  "after_pick a T e =
     e\<lparr>currentWeight := currentWeight e + we_weight e - (if we_addr e = a then T else 0)\<rparr>"

text \<open>The entry after a run of calls that returned the addresses \<open>picks\<close>.\<close>

definition after_picks :: "string list \<Rightarrow> int \<Rightarrow> weightedEntry \<Rightarrow> weightedEntry" where
  "after_picks picks T e =
     e\<lparr>currentWeight := currentWeight e + int (length picks) * we_weight e
                            - T * int (count_list picks (we_addr e))\<rparr>"

text \<open>The entry that the constructor makes of a backend.\<close>

definition new_entry :: "WeightedBackend \<Rightarrow> weightedEntry" where
  "new_entry b = \<lparr>we_addr = Addr b, we_weight = effective_weight b, currentWeight = 0\<rparr>"

section \<open>Integers inside the 64-bit range\<close>

lemma wrap64_id: "- (2 ^ 63) \<le> x \<Longrightarrow> x < 2 ^ 63 \<Longrightarrow> wrap64 x = x"
proof -
  assume "- (2 ^ 63) \<le> x" "x < 2 ^ 63"
  then have "0 \<le> x + 2 ^ 63" "x + 2 ^ 63 < 2 ^ 64" by simp_all
  then have "(x + 2 ^ 63) mod 2 ^ 64 = x + 2 ^ 63" by (rule mod_pos_pos_trivial)
  then show ?thesis by (simp only: wrap64_def add_diff_cancel_right')
qed

section \<open>Circuit breaker: the state machine\<close>

text \<open>
  Calls that do not overlap follow the state machine. The breaker starts closed, and a
  closed breaker admits every call. A \<open>RecordFailure\<close> on a closed breaker that brings the
  failure count to \<open>maxFailures\<close> or more opens it. An \<open>Allow\<close> on an open breaker is
  refused and changes nothing while the last failure is less than \<open>timeout\<close> old; once it
  is that old the call moves the breaker to half-open and returns true. An \<open>Allow\<close> on a
  half-open breaker returns false and changes nothing. \<open>RecordSuccess\<close> on a half-open
  breaker closes it with a failure count of 0; \<open>RecordFailure\<close> on a half-open breaker
  reopens it, counts the failure and sets the time of the last failure to now.
\<close>

lemma calls_one_at_a_time:
  "cb_state (circuitbreaker_New mf tmo) = StateClosed
   \<and> (cb_state c0 = StateClosed \<longrightarrow> CircuitBreaker_Allow c0 n0 = (True, c0))
   \<and> (cb_state c1 = StateClosed
        \<and> cb_failures (CircuitBreaker_RecordFailure c1 n1) \<ge> cb_maxFailures c1
      \<longrightarrow> cb_state (CircuitBreaker_RecordFailure c1 n1) = StateOpen)
   \<and> (cb_state c2 = StateOpen \<and> Since n2 (cb_lastFailureTime c2) \<ge> cb_timeout c2
      \<longrightarrow> CircuitBreaker_Allow c2 n2 = (True, c2\<lparr>cb_state := StateHalfOpen\<rparr>))
   \<and> (cb_state c6 = StateOpen \<and> Since n6 (cb_lastFailureTime c6) < cb_timeout c6
      \<longrightarrow> CircuitBreaker_Allow c6 n6 = (False, c6))
   \<and> (cb_state c3 = StateHalfOpen \<longrightarrow> CircuitBreaker_Allow c3 n3 = (False, c3))
   \<and> (cb_state c4 = StateHalfOpen
      \<longrightarrow> CircuitBreaker_RecordSuccess c4 = c4\<lparr>cb_failures := 0, cb_state := StateClosed\<rparr>)
   \<and> (cb_state c5 = StateHalfOpen
      \<longrightarrow> CircuitBreaker_RecordFailure c5 n5 =
          c5\<lparr>cb_failures := wrap64 (cb_failures c5 + 1), cb_lastFailureTime := n5,
             cb_state := StateOpen\<rparr>)"
  by (auto simp add: circuitbreaker_New_def CircuitBreaker_RecordFailure_def
        CircuitBreaker_Allow_def Allow_load_def Allow_switch_def
        CircuitBreaker_RecordSuccess_def setState_def Let_def
      split: if_splits)

text \<open>
  The switch of \<open>Allow\<close> on a loaded value that is still the state of the breaker is the
  call with nothing in between. On a stale value it is not: a caller that loaded
  \<open>StateOpen\<close> is admitted whenever the last failure is \<open>timeout\<close> old, whatever the
  state of the breaker has become, and it sets that state to half-open.
\<close>

lemma Allow_switch_fresh:
  "Allow_switch (cb_state cb) cb now = CircuitBreaker_Allow cb now"
  by (simp add: CircuitBreaker_Allow_def Allow_load_def)

lemma Allow_switch_stale:
  "Since now (cb_lastFailureTime cb) \<ge> cb_timeout cb \<Longrightarrow>
     Allow_switch StateOpen cb now = (True, cb\<lparr>cb_state := StateHalfOpen\<rparr>)"
  by (simp add: Allow_switch_def setState_def)

text \<open>
  C1. On a half-open breaker every \<open>Allow\<close> is to return false until an outcome is
  recorded, so that one probe is admitted. The run below breaks this. A breaker
  made with \<open>maxFailures = 2\<close> and a timeout of 50 ms is opened by two failures. After
  100 ms the callers 0 and 1 both load the state, which is open, before either takes the
  lock. Caller 0 is admitted and leaves the breaker half-open; caller 1 then takes the
  lock on the half-open breaker, with no outcome recorded, and is admitted as well. When
  caller 1 loads the state after caller 0 has finished, it is refused. In a third run the
  probe of caller 0 succeeds and closes the breaker before caller 1 takes the lock:
  caller 1 is admitted and moves the closed breaker to half-open, a transition that the
  state machine does not have.
\<close>

theorem half_open_admits_a_second_caller:
  "run_returns (cb_events (circuitbreaker_New 2 50000000)
      [Failure 1000, Failure 2000, Load 0, Load 1, Switch 0 100002000, Switch 1 100003000])
     = [(0, True), (1, True)]
   \<and> cb_state (run_breaker (cb_events (circuitbreaker_New 2 50000000)
        [Failure 1000, Failure 2000])) = StateOpen
   \<and> run_loaded (cb_events (circuitbreaker_New 2 50000000)
        [Failure 1000, Failure 2000, Load 0, Load 1]) 1 = Some StateOpen
   \<and> cb_state (run_breaker (cb_events (circuitbreaker_New 2 50000000)
        [Failure 1000, Failure 2000, Load 0, Load 1, Switch 0 100002000])) = StateHalfOpen
   \<and> cb_state (run_breaker (cb_events (circuitbreaker_New 2 50000000)
        [Failure 1000, Failure 2000, Load 0, Load 1, Switch 0 100002000, Switch 1 100003000]))
       = StateHalfOpen
   \<and> run_returns (cb_events (circuitbreaker_New 2 50000000)
        [Failure 1000, Failure 2000, Load 0, Switch 0 100002000, Load 1, Switch 1 100003000])
       = [(0, True), (1, False)]
   \<and> cb_state (run_breaker (cb_events (circuitbreaker_New 2 50000000)
        [Failure 1000, Failure 2000, Load 0, Load 1, Switch 0 100002000, Success]))
       = StateClosed
   \<and> run_returns (cb_events (circuitbreaker_New 2 50000000)
        [Failure 1000, Failure 2000, Load 0, Load 1, Switch 0 100002000, Success,
         Switch 1 100003000])
       = [(0, True), (1, True)]
   \<and> cb_state (run_breaker (cb_events (circuitbreaker_New 2 50000000)
        [Failure 1000, Failure 2000, Load 0, Load 1, Switch 0 100002000, Success,
         Switch 1 100003000]))
       = StateHalfOpen"
proof -
  have w: "wrap64 1 = 1" "wrap64 2 = 2"
    by (simp_all add: wrap64_id)
  show ?thesis
    by (simp add: cb_events_def circuitbreaker_New_def CircuitBreaker_RecordFailure_def
        Allow_load_def Allow_switch_def CircuitBreaker_RecordSuccess_def setState_def Let_def
        Since_def Sub_def maxDuration_def minDuration_def w)
qed

section \<open>Circuit breaker: a success recorded while open\<close>

text \<open>
  C10. On an open breaker \<open>RecordSuccess\<close> sets the failure count to 0 and changes nothing
  else: the state stays open and the time of the last failure is kept. The only
  operation that takes a breaker out of the open state is an \<open>Allow\<close> at a time when the
  last failure is at least \<open>timeout\<close> old, and it leads to half-open.
\<close>

theorem record_success_while_open:
  "cb_state cb = StateOpen \<longrightarrow>
     CircuitBreaker_RecordSuccess cb = cb\<lparr>cb_failures := 0\<rparr>
     \<and> cb_failures (CircuitBreaker_RecordSuccess cb) = 0
     \<and> cb_state (CircuitBreaker_RecordSuccess cb) = StateOpen
     \<and> cb_lastFailureTime (CircuitBreaker_RecordSuccess cb) = cb_lastFailureTime cb
     \<and> (cb_state (cb_step cb op) \<noteq> StateOpen \<longrightarrow>
          (\<exists>now. op = OpAllow now \<and> Since now (cb_lastFailureTime cb) \<ge> cb_timeout cb)
          \<and> cb_state (cb_step cb op) = StateHalfOpen)"
  by (cases op)
     (auto simp add: CircuitBreaker_RecordFailure_def CircuitBreaker_Allow_def
        Allow_load_def Allow_switch_def
        CircuitBreaker_RecordSuccess_def setState_def Let_def split: if_splits)

theorem record_success_while_open_witness:
  "(let cb = \<lparr>cb_maxFailures = 2, cb_timeout = 50, cb_state = StateOpen, cb_failures = 2,
               cb_lastFailureTime = 20\<rparr>
    in cb_state cb = StateOpen
       \<and> CircuitBreaker_RecordSuccess cb = cb\<lparr>cb_failures := 0\<rparr>
       \<and> cb_state (cb_step cb (OpAllow 120)) \<noteq> StateOpen
       \<and> cb_state (cb_step cb (OpAllow 120)) = StateHalfOpen
       \<and> cb_state (cb_step cb (OpAllow 60)) = StateOpen
       \<and> cb_state (cb_step cb (OpRecordFailure 60)) = StateOpen)"
proof -
  have w: "wrap64 3 = 3"
    by (simp add: wrap64_id)
  show ?thesis
    using record_success_while_open
    [of "\<lparr>cb_maxFailures = 2, cb_timeout = 50, cb_state = StateOpen, cb_failures = 2,
          cb_lastFailureTime = 20\<rparr>" "OpAllow 120"]
    by (simp add: CircuitBreaker_RecordFailure_def CircuitBreaker_Allow_def
        Allow_load_def Allow_switch_def
        CircuitBreaker_RecordSuccess_def setState_def Let_def
        Since_def Sub_def maxDuration_def minDuration_def w)
qed

text \<open>
  The same holds when calls overlap: an event of a run takes the breaker out of the open
  state only when it is the switch of a caller that had loaded the open state, at a time
  when the last failure is at least \<open>timeout\<close> old, and it leads to half-open.
\<close>

lemma open_left_by_switch_only:
  assumes "cb_state (run_breaker r) = StateOpen"
    and "cb_state (run_breaker (cb_event_step r ev)) \<noteq> StateOpen"
  shows "(\<exists>g now. ev = Switch g now \<and> run_loaded r g = Some StateOpen
            \<and> Since now (cb_lastFailureTime (run_breaker r)) \<ge> cb_timeout (run_breaker r))
         \<and> cb_state (run_breaker (cb_event_step r ev)) = StateHalfOpen"
  using assms
  by (cases ev)
     (auto simp add: CircuitBreaker_RecordFailure_def Allow_switch_def
        CircuitBreaker_RecordSuccess_def setState_def Let_def
      split: if_splits option.splits State.splits)

section \<open>Balancers built from an empty pool\<close>

text \<open>
  C9. \<open>Next\<close> on a round-robin balancer built from an empty list panics on the remainder
  by zero, whereas least connections, weighted round robin and the consistent hash built
  from an empty pool return the empty string.
\<close>

theorem empty_pool_balancers:
  "RoundRobin_Next (NewRoundRobin []) = Inl IntegerDivideByZero
   \<and> fst (LeastConnections_Next (NewLeastConnections [])) = []
   \<and> fst (WeightedRoundRobin_Next (NewWeightedRoundRobin [])) = []
   \<and> NextWithKey crc (NewConsistentHash crc n []) key = []"
  by (simp add: RoundRobin_Next_def NewRoundRobin_def LeastConnections_Next_def
        NewLeastConnections_def WeightedRoundRobin_Next_def NewWeightedRoundRobin_def
        NextWithKey_def NewConsistentHash_def Let_def)

section \<open>Hot reload keeps the router when the new configuration is rejected\<close>

text \<open>
  C5. When the check step reads a configuration that fails parsing or validation, the
  reloader is left as it was: \<open>Router()\<close> gives the same router after the attempt as
  before it, and the stored modification time is unchanged.
\<close>

theorem failed_reload_keeps_router:
  "env_ReadFile env (configPath hr) = Inr data \<and> ParseConfig env data = Inl err \<longrightarrow>
     checkAndReload sortSlice env hr = hr
     \<and> HotReloader_Router (checkAndReload sortSlice env hr) = HotReloader_Router hr
     \<and> lastModTime (checkAndReload sortSlice env hr) = lastModTime hr"
  by (simp add: checkAndReload_def LoadConfig_def split: sum.splits)

text \<open>
  The rejection scenario: the reloader serves a table with the backend
  \<open>http://old:8080\<close>, the file is newer than the stored time, and what it decodes to has
  a route with an empty backend list.
\<close>

theorem failed_reload_keeps_router_witness:
  "(let old = \<lparr>routes = [\<lparr>Path = ''/api'', Headers = [], Backends = [''http://old:8080'']\<rparr>]\<rparr>;
        hr = \<lparr>configPath = ''routes.yaml'', interval = 50000000, hr_router = old,
              lastModTime = 1000\<rparr>;
        env = \<lparr>env_Stat = (\<lambda>p. Inr 2000), env_ReadFile = (\<lambda>p. Inr ''bad''),
               env_Unmarshal = (\<lambda>d. Inr \<lparr>Routes =
                 [\<lparr>rc_Path = ''/api'', rc_Headers = [], rc_Backends = []\<rparr>]\<rparr>)\<rparr>
    in env_ReadFile env (configPath hr) = Inr ''bad''
       \<and> ParseConfig env ''bad'' = Inl (NoBackends 0 ''/api'')
       \<and> checkAndReload insertion_sort env hr = hr
       \<and> HotReloader_Router (checkAndReload insertion_sort env hr) = old
       \<and> lastModTime (checkAndReload insertion_sort env hr) = 1000)"
  using failed_reload_keeps_router
    [of "\<lparr>env_Stat = (\<lambda>p. Inr 2000), env_ReadFile = (\<lambda>p. Inr ''bad''),
          env_Unmarshal = (\<lambda>d. Inr \<lparr>Routes =
            [\<lparr>rc_Path = ''/api'', rc_Headers = [], rc_Backends = []\<rparr>]\<rparr>)\<rparr>"
        "\<lparr>configPath = ''routes.yaml'', interval = 50000000,
          hr_router = \<lparr>routes = [\<lparr>Path = ''/api'', Headers = [],
            Backends = [''http://old:8080'']\<rparr>]\<rparr>,
          lastModTime = 1000\<rparr>"
        "''bad''" "NoBackends 0 ''/api''" insertion_sort]
  by (simp add: ParseConfig_def validateConfig_def HotReloader_Router_def)

section \<open>Router: the first matching route in specificity order\<close>

lemma matchHeaders_iff:
  "matchHeaders req hs = (\<forall>kv \<in> set hs. header_matches req kv)"
proof (induction hs)
  case Nil
  then show ?case by simp
next
  case (Cons kv hs)
  obtain k v where kv: "kv = (k, v)" by (cases kv)
  show ?case
    unfolding kv using Cons.IH by (simp add: header_matches_def Let_def)
qed

lemma HasPrefix_iff: "HasPrefix s pre = (\<exists>rest. s = pre @ rest)"
proof
  assume "HasPrefix s pre"
  then have "s = pre @ drop (length pre) s"
    by (metis HasPrefix_def append_take_drop_id)
  then show "\<exists>rest. s = pre @ rest" ..
next
  assume "\<exists>rest. s = pre @ rest"
  then show "HasPrefix s pre"
    by (auto simp add: HasPrefix_def)
qed

lemma Match_loop_step:
  "Match_loop (r # rs) req = (if route_matches req r then Some r else Match_loop rs req)"
  by (simp add: route_matches_def matchHeaders_iff HasPrefix_iff)

lemma Match_loop_None:
  "(Match_loop rs req = None) = (\<forall>rt \<in> set rs. \<not> route_matches req rt)"
  by (induction rs) (simp_all only: Match_loop_step Match_loop.simps(1), auto)

lemma Match_loop_Some:
  "Match_loop rs req = Some rt \<Longrightarrow>
     \<exists>i < length rs. rs ! i = rt \<and> route_matches req rt \<and> (\<forall>j < i. \<not> route_matches req (rs ! j))"
proof (induction rs)
  case Nil
  then show ?case by simp
next
  case (Cons r rs)
  show ?case
  proof (cases "route_matches req r")
    case True
    with Cons.prems have "rt = r"
      by (simp only: Match_loop_step if_True option.inject)
    with True show ?thesis
      by (intro exI [of _ 0]) simp
  next
    case False
    with Cons.prems have "Match_loop rs req = Some rt"
      by (simp only: Match_loop_step if_False)
    from Cons.IH [OF this] obtain i where i: "i < length rs" "rs ! i = rt"
      "route_matches req rt" "\<forall>j < i. \<not> route_matches req (rs ! j)"
      by blast
    have "\<forall>j < Suc i. \<not> route_matches req ((r # rs) ! j)"
      using False i(4) by (simp add: nth_Cons split: nat.splits)
    with i(1-3) show ?thesis
      by (intro exI [of _ "Suc i"]) simp
  qed
qed

lemma not_route_less_iff: "(\<not> route_less b a) = at_least_as_specific a b"
  by (auto simp add: route_less_def at_least_as_specific_def)

lemma mset_insert_by: "mset (insert_by lt x xs) = add_mset x (mset xs)"
  by (induction xs) auto

lemma mset_insertion_sort: "mset (insertion_sort lt xs) = mset xs"
  by (induction xs) (auto simp add: mset_insert_by)

lemma set_insert_by: "set (insert_by lt x xs) = insert x (set xs)"
  by (induction xs) auto

lemma sorted_insert_by_route_less:
  "sorted_wrt (\<lambda>a b. \<not> route_less b a) xs \<Longrightarrow>
   sorted_wrt (\<lambda>a b. \<not> route_less b a) (insert_by route_less x xs)"
proof (induction xs)
  case Nil
  then show ?case by simp
next
  case (Cons y ys)
  show ?case
  proof (cases "route_less y x")
    case True
    have "\<forall>z \<in> set ys. \<not> route_less z y"
      using Cons.prems by simp
    moreover have "\<not> route_less x y"
      using True by (auto simp add: route_less_def split: if_splits)
    ultimately have "\<forall>z \<in> set (insert_by route_less x ys). \<not> route_less z y"
      by (simp add: set_insert_by)
    moreover have "sorted_wrt (\<lambda>a b. \<not> route_less b a) (insert_by route_less x ys)"
      using Cons by simp
    ultimately show ?thesis
      using True by simp
  next
    case False
    have "\<forall>z \<in> set ys. \<not> route_less z x"
    proof
      fix z assume "z \<in> set ys"
      then have "\<not> route_less z y"
        using Cons.prems by simp
      with False show "\<not> route_less z x"
        by (auto simp add: route_less_def split: if_splits)
    qed
    with False Cons.prems show ?thesis
      by simp
  qed
qed

lemma insertion_sort_sorts_routes: "sorts_with route_less (insertion_sort route_less)"
proof -
  have "sorted_wrt (\<lambda>a b. \<not> route_less b a) (insertion_sort route_less xs)" for xs
    by (induction xs) (simp_all add: sorted_insert_by_route_less)
  then show ?thesis
    by (simp add: sorts_with_def mset_insertion_sort)
qed

text \<open>
  C4. The table of the router built by \<open>New\<close> holds the compiled routes of the
  configuration in specificity order: descending length of the path prefix, then
  descending number of required headers. \<open>Match\<close> returns the first route of that table
  whose path prefix is a prefix of the request path and whose required headers all match
  (\<open>*\<close> matches any non-empty value, any other value must be equal), and nil when no
  route of the table does.
\<close>

theorem match_first_in_specificity_order:
  assumes "sorts_with route_less (sortSlice route_less)"
  shows "(let rs = routes (router_New sortSlice cfg) in
            mset rs = mset (map compile_route (Routes cfg))
            \<and> sorted_wrt at_least_as_specific rs
            \<and> ((Match (router_New sortSlice cfg) req = None)
                 = (\<forall>rt \<in> set rs. \<not> route_matches req rt))
            \<and> (\<forall>rt. Match (router_New sortSlice cfg) req = Some rt \<longrightarrow>
                 (\<exists>i < length rs. rs ! i = rt \<and> route_matches req rt
                    \<and> (\<forall>j < i. \<not> route_matches req (rs ! j)))))"
proof -
  let ?rs = "sortSlice route_less (map compile_route (Routes cfg))"
  have perm: "mset ?rs = mset (map compile_route (Routes cfg))"
    using assms by (simp add: sorts_with_def)
  have "sorted_wrt (\<lambda>a b. \<not> route_less b a) ?rs"
    using assms by (simp add: sorts_with_def)
  then have srt: "sorted_wrt at_least_as_specific ?rs"
    by (simp add: not_route_less_iff)
  have none: "(Match_loop ?rs req = None) = (\<forall>rt \<in> set ?rs. \<not> route_matches req rt)"
    by (rule Match_loop_None)
  have some: "\<forall>rt. Match_loop ?rs req = Some rt \<longrightarrow>
      (\<exists>i < length ?rs. ?rs ! i = rt \<and> route_matches req rt
         \<and> (\<forall>j < i. \<not> route_matches req (?rs ! j)))"
    using Match_loop_Some by blast
  show ?thesis
    unfolding Let_def router_New_def Match_def
    using perm srt none some by simp
qed

text \<open>
  The header routing scenario: three routes, given in an order that is not the
  specificity order; a request for \<open>/api/endpoint\<close> with the version header is matched
  by the route that requires it, without the header by the route that requires none, and
  a request for another path by no route.
\<close>

theorem match_first_in_specificity_order_witness:
  "sorts_with route_less (insertion_sort route_less)
   \<and> (let users = \<lparr>Path = ''/api/users'', Headers = [], Backends = [''http://users:8080'']\<rparr>;
           v2 = \<lparr>Path = ''/api'', Headers = [(''X-API-Version'', ''v2'')],
                 Backends = [''http://v2:8080'']\<rparr>;
           v1 = \<lparr>Path = ''/api'', Headers = [], Backends = [''http://v1:8080'']\<rparr>;
           cfg = \<lparr>Routes =
             [\<lparr>rc_Path = ''/api'', rc_Headers = [], rc_Backends = [''http://v1:8080'']\<rparr>,
              \<lparr>rc_Path = ''/api/users/*'', rc_Headers = [], rc_Backends = [''http://users:8080'']\<rparr>,
              \<lparr>rc_Path = ''/api'', rc_Headers = [(''X-API-Version'', ''v2'')],
                rc_Backends = [''http://v2:8080'']\<rparr>]\<rparr>;
           req = \<lparr>URL_Path = ''/api/endpoint'',
                  Header_Get = (\<lambda>k. if k = ''X-API-Version'' then ''v2'' else [])\<rparr>;
           r = router_New insertion_sort cfg
       in routes r = [users, v2, v1]
          \<and> sorted_wrt at_least_as_specific (routes r)
          \<and> Match r req = Some v2
          \<and> \<not> route_matches req users \<and> route_matches req v2
          \<and> Match r (req\<lparr>Header_Get := (\<lambda>k. [])\<rparr>) = Some v1
          \<and> Match r (req\<lparr>URL_Path := ''/other''\<rparr>) = None)"
  using insertion_sort_sorts_routes
    match_first_in_specificity_order [of insertion_sort
         "\<lparr>Routes =
             [\<lparr>rc_Path = ''/api'', rc_Headers = [], rc_Backends = [''http://v1:8080'']\<rparr>,
              \<lparr>rc_Path = ''/api/users/*'', rc_Headers = [], rc_Backends = [''http://users:8080'']\<rparr>,
              \<lparr>rc_Path = ''/api'', rc_Headers = [(''X-API-Version'', ''v2'')],
                rc_Backends = [''http://v2:8080'']\<rparr>]\<rparr>"
         "\<lparr>URL_Path = ''/api/endpoint'',
           Header_Get = (\<lambda>k. if k = ''X-API-Version'' then ''v2'' else [])\<rparr>"]
  by (simp add: router_New_def compile_route_def TrimSuffix_def HasSuffix_def HasPrefix_def
        route_less_def Match_def route_matches_def header_matches_def at_least_as_specific_def Let_def)

section \<open>Facts about rounding\<close>

lemma rhe_of_int: "rhe (of_int k) = k"
  by (simp add: rhe_def)

lemma rhe_bounds: "of_int (rhe r) \<le> r + 1" "r - 1 \<le> of_int (rhe r)"
  unfolding rhe_def Let_def by (auto; linarith)+

lemma rhe_mono_int: "of_int k \<le> r \<Longrightarrow> k \<le> rhe r"
  unfolding rhe_def Let_def by (auto simp add: le_floor_iff; linarith)

lemma flog2_bounds:
  assumes "x > 0"
  shows "2 powi (flog2 x) \<le> x" and "x < 2 powi (flog2 x + 1)"
proof -
  obtain a b where ab: "quotient_of x = (a, b)" by (cases "quotient_of x")
  have b: "b > 0" using ab by (rule quotient_of_denom_pos)
  have x: "x = of_int a / of_int b" using ab by (rule quotient_of_div)
  have a: "a > 0" using assms b x by (simp add: zero_less_divide_iff)
  define d where "d = bitlen a - bitlen b"
  have la: "bitlen a \<ge> 1" and lb: "bitlen b \<ge> 1"
    using a b by (simp_all add: bitlen_alt_def)
  have a1: "(2::rat) powi (bitlen a - 1) \<le> of_int a" 
  proof -
    have "2 ^ nat (bitlen a - 1) \<le> a" using bitlen_bounds [OF a] by simp
    then have "(of_int (2 ^ nat (bitlen a - 1)) :: rat) \<le> of_int a" 
      by (simp only: of_int_le_iff)
    then show ?thesis using la by (simp add: power_int_def)
  qed
  have a2: "of_int a < (2::rat) powi (bitlen a)" 
  proof -
    have "a < 2 ^ nat (bitlen a)" using bitlen_bounds [OF a] by simp
    then have "(of_int a :: rat) < of_int (2 ^ nat (bitlen a))"
      by (simp only: of_int_less_iff)
    then show ?thesis using la by (simp add: power_int_def)
  qed
  have b1: "(2::rat) powi (bitlen b - 1) \<le> of_int b" 
  proof -
    have "2 ^ nat (bitlen b - 1) \<le> b" using bitlen_bounds [OF b] by simp
    then have "(of_int (2 ^ nat (bitlen b - 1)) :: rat) \<le> of_int b" 
      by (simp only: of_int_le_iff)
    then show ?thesis using lb by (simp add: power_int_def)
  qed
  have b2: "of_int b < (2::rat) powi (bitlen b)" 
  proof -
    have "b < 2 ^ nat (bitlen b)" using bitlen_bounds [OF b] by simp
    then have "(of_int b :: rat) < of_int (2 ^ nat (bitlen b))"
      by (simp only: of_int_less_iff)
    then show ?thesis using lb by (simp add: power_int_def)
  qed
  have bpos: "(of_int b :: rat) > 0" using b by simp
  have apos: "(of_int a :: rat) > 0" using a by simp
  have lo: "(2::rat) powi (d - 1) \<le> x"
  proof -
    have "(2::rat) powi (d - 1) * of_int b \<le> 2 powi (d - 1) * 2 powi (bitlen b)"
      using b2 by (intro mult_left_mono) (simp_all add: less_imp_le)
    also have "\<dots> = 2 powi (bitlen a - 1)"
      by (simp add: d_def flip: power_int_add)
    also have "\<dots> \<le> of_int a" by (rule a1)
    finally show ?thesis
      using bpos by (simp add: x pos_le_divide_eq)
  qed
  have hi: "x < (2::rat) powi (d + 1)"
  proof -
    have "of_int a < (2::rat) powi (bitlen a)" by (rule a2)
    also have "\<dots> = 2 powi (d + 1) * 2 powi (bitlen b - 1)"
      by (simp add: d_def flip: power_int_add)
    also have "\<dots> \<le> 2 powi (d + 1) * of_int b"
      using b1 by (intro mult_left_mono) simp_all
    finally show ?thesis
      using bpos by (simp add: x pos_divide_less_eq)
  qed
  have fl: "flog2 x = (if 2 powi d \<le> x then d else d - 1)"
    by (simp add: flog2_def ab d_def)
  show "2 powi (flog2 x) \<le> x"
    using lo by (simp add: fl)
  show "x < 2 powi (flog2 x + 1)"
    using hi by (auto simp add: fl not_le)
qed

lemma powi_mono: "a \<le> b \<Longrightarrow> (2::rat) powi a \<le> 2 powi b"
  by (rule power_int_increasing) simp_all

lemma powi_less_imp: "(2::rat) powi a < 2 powi b \<Longrightarrow> a < b"
  using powi_mono [of b a] by (cases "a < b") simp_all

lemma flog2_ge: "x > 0 \<Longrightarrow> 2 powi k \<le> x \<Longrightarrow> k \<le> flog2 x"
proof -
  assume "x > 0" "2 powi k \<le> x"
  then have "(2::rat) powi k < 2 powi (flog2 x + 1)"
    using flog2_bounds(2) [of x] by simp
  then have "k < flog2 x + 1" by (rule powi_less_imp)
  then show ?thesis by simp
qed

lemma flog2_le: "x > 0 \<Longrightarrow> x \<le> 2 powi k \<Longrightarrow> flog2 x \<le> k"
proof -
  assume "x > 0" "x \<le> 2 powi k"
  then have "(2::rat) powi (flog2 x) \<le> 2 powi k"
    using flog2_bounds(1) [of x] by simp
  then show ?thesis
    using powi_less_imp [of "k + 1" "flog2 x"] powi_mono [of k "flog2 x"]
    by (metis not_le power_int_strict_increasing one_less_numeral_iff semiring_norm(76))
qed

lemma round_pos_nonneg: "x \<ge> 0 \<Longrightarrow> round_pos x \<ge> 0"
proof -
  assume "x \<ge> 0"
  then have "(of_int 0 :: rat) \<le> x / 2 powi ulp_exp x" by simp
  then have "0 \<le> rhe (x / 2 powi ulp_exp x)" by (rule rhe_mono_int)
  then show ?thesis by (simp add: round_pos_def)
qed

lemma round_pos_upper: "round_pos x \<le> x + 2 powi ulp_exp x"
proof -
  have p: "(2::rat) powi ulp_exp x > 0" by simp
  have "of_int (rhe (x / 2 powi ulp_exp x)) * 2 powi ulp_exp x
        \<le> (x / 2 powi ulp_exp x + 1) * 2 powi ulp_exp x"
    using rhe_bounds(1) [of "x / 2 powi ulp_exp x"] p
    by (intro mult_right_mono) simp_all
  also have "\<dots> = x + 2 powi ulp_exp x"
    by (simp add: algebra_simps)
  finally show ?thesis by (simp add: round_pos_def)
qed

text \<open>An integer of magnitude up to \<open>2^53\<close> is a binary64 value: rounding keeps it.\<close>

lemma round_pos_int:
  assumes "0 < n" "n \<le> 2 ^ 53"
  shows "round_pos (of_int n) = of_int n"
proof -
  let ?x = "of_int n :: rat"
  have pos: "?x > 0" using assms by simp
  have "(2::rat) powi 0 \<le> ?x" using assms by simp
  then have e0: "0 \<le> flog2 ?x" using pos by (intro flog2_ge)
  have "?x \<le> (2::rat) powi 53"
  proof -
    have "(of_int n :: rat) \<le> of_int (2 ^ 53)" using assms(2) by (simp only: of_int_le_iff)
    then show ?thesis by simp
  qed
  then have e53: "flog2 ?x \<le> 53" using pos by (intro flog2_le)
  have q: "ulp_exp ?x = flog2 ?x - 52" using e0 by (simp add: ulp_exp_def Let_def)
  show ?thesis
  proof (cases "flog2 ?x \<le> 52")
    case True
    define k where "k = nat (52 - flog2 ?x)"
    have "ulp_exp ?x = - int k" using True q by (simp add: k_def)
    then have p: "(2::rat) powi ulp_exp ?x = 1 / 2 ^ k"
      by (simp add: power_int_minus field_simps)
    have "?x / 2 powi ulp_exp ?x = of_int (n * 2 ^ k)"
      by (simp add: p)
    then have "rhe (?x / 2 powi ulp_exp ?x) = n * 2 ^ k"
      by (simp only: rhe_of_int)
    then show ?thesis
      by (simp add: round_pos_def p)
  next
    case False
    then have e: "flog2 ?x = 53" using e53 by simp
    have "(2::rat) powi 53 \<le> ?x" using flog2_bounds(1) [OF pos] by (simp add: e)
    then have "(of_int (2 ^ 53) :: rat) \<le> of_int n" by simp
    then have "2 ^ 53 \<le> n" by (simp only: of_int_le_iff)
    then have n: "n = 2 ^ 53" using assms(2) by simp
    have p: "(2::rat) powi ulp_exp ?x = 2" by (simp add: q e)
    have "?x / 2 powi ulp_exp ?x = ?x / 2"
      by (simp only: p)
    also have "\<dots> = of_int (2 ^ 52)"
      by (simp add: n)
    finally have "rhe (?x / 2 powi ulp_exp ?x) = 2 ^ 52"
      by (simp only: rhe_of_int)
    then have "round_pos ?x = of_int (2 ^ 52) * 2"
      by (simp only: round_pos_def p)
    then show ?thesis
      by (simp add: n)
  qed
qed

lemma round64_int:
  assumes "\<bar>n\<bar> \<le> 2 ^ 53"
  shows "round64 (of_int n) = Fin (of_int n)"
proof (cases "n = 0")
  case True
  then show ?thesis by (simp add: round64_def)
next
  case False
  then have "0 < \<bar>n\<bar>" by simp
  then have r: "round_pos (of_int \<bar>n\<bar>) = of_int \<bar>n\<bar>"
    using assms by (rule round_pos_int)
  have "(of_int \<bar>n\<bar> :: rat) \<le> of_int (2 ^ 53)" using assms by (simp only: of_int_le_iff)
  also have "\<dots> < 2 ^ 1024" by simp
  finally have small: "\<not> (2::rat) ^ 1024 \<le> of_int \<bar>n\<bar>" by simp
  have abs: "\<bar>of_int n :: rat\<bar> = of_int \<bar>n\<bar>" by simp
  show ?thesis
    using False small by (simp only: round64_def abs r Let_def) auto
qed

text \<open>Rounding keeps bounded values finite, and keeps the sign.\<close>

lemma round64_finite:
  assumes "\<bar>x\<bar> \<le> 2 ^ 1000"
  shows "\<exists>y. round64 x = Fin y \<and> \<bar>y\<bar> \<le> 2 * \<bar>x\<bar> + 1 \<and> (0 \<le> x \<longrightarrow> 0 \<le> y) \<and> (x \<le> 0 \<longrightarrow> y \<le> 0)"
proof (cases "x = 0")
  case True
  then show ?thesis by (simp add: round64_def)
next
  case False
  let ?a = "\<bar>x\<bar>"
  have pos: "?a > 0" using False by simp
  have nn: "round_pos ?a \<ge> 0" by (rule round_pos_nonneg) simp
  have up: "round_pos ?a \<le> ?a + 2 powi ulp_exp ?a" by (rule round_pos_upper)
  have "?a \<le> 2 powi 1000" using assms by simp
  then have e: "flog2 ?a \<le> 1000" using pos by (intro flog2_le)
  have u1: "(2::rat) powi ulp_exp ?a \<le> ?a + 1"
  proof (cases "flog2 ?a < - 1022")
    case True
    then have "ulp_exp ?a = - 1074" by (simp add: ulp_exp_def Let_def)
    then have "(2::rat) powi ulp_exp ?a \<le> 2 powi 0"
      by (simp only: powi_mono)
    then show ?thesis using pos by simp
  next
    case False
    then have "ulp_exp ?a = flog2 ?a - 52" by (simp add: ulp_exp_def Let_def)
    then have "(2::rat) powi ulp_exp ?a \<le> 2 powi flog2 ?a"
      by (simp only: powi_mono)
    also have "\<dots> \<le> ?a" using flog2_bounds(1) [OF pos] .
    finally show ?thesis by simp
  qed
  have bound: "round_pos ?a \<le> 2 * ?a + 1" using up u1 by simp
  have "2 * ?a + 1 \<le> 2 * 2 ^ 1000 + 1" using assms by simp
  also have "\<dots> < (2::rat) ^ 1024" by simp
  finally have small: "\<not> (2::rat) ^ 1024 \<le> round_pos ?a" using bound by simp
  show ?thesis
  proof (cases "x > 0")
    case True
    then have ax: "?a = x" by simp
    have "round64 x = Fin (round_pos x)"
      using small True by (simp only: round64_def Let_def ax) simp
    then show ?thesis
      using nn bound True by (simp only: ax) simp
  next
    case neg: False
    then have ax: "?a = - x" and xn: "x < 0" using False by simp_all
    have "round64 x = Fin (- round_pos (- x))"
      using small xn by (simp only: round64_def Let_def ax) simp
    then show ?thesis
      using nn bound xn by (simp only: ax) simp
  qed
qed

section \<open>Healthy pool: fail-open and fail-closed\<close>













text \<open>When all the checks of a call see one reading, the backends that pass are a filter of the list.\<close>

lemma passing_one_reading:
  "passing hp (\<lambda>i. now) = filter (passes_filter hp now) (hp_all hp)"
proof -
  have "map snd (filter (\<lambda>(j, b). P b) (enumerate i bs)) = filter P bs" for P i and bs :: "string list"
    by (induction bs arbitrary: i) simp_all
  then show ?thesis
    by (simp add: passing_def)
qed


section \<open>Passive checker: the health of a backend\<close>

lemma f64_lt_irrefl: "\<not> f64_lt x x"
  by (cases x) simp_all

lemma trim_sorted:
  "sorted (map timestamp os) \<Longrightarrow> trim os c = filter (\<lambda>outcome. \<not> timestamp outcome < c) os"
proof (induction os)
  case Nil
  then show ?case by (simp add: trim_def)
next
  case (Cons x xs)
  show ?case
  proof (cases "timestamp x < c")
    case True
    with Cons show ?thesis by (simp add: trim_def)
  next
    case False
    with Cons.prems have "\<forall>y \<in> set xs. \<not> timestamp y < c" by auto
    then have "filter (\<lambda>outcome. \<not> timestamp outcome < c) xs = xs" by simp
    with False show ?thesis by (simp add: trim_def)
  qed
qed

lemma error_rate_rounded:
  assumes "0 < cnt" "cnt \<le> 2 ^ 53" "0 \<le> failures" "failures \<le> cnt"
  shows "f64_div (f64_of_int failures) (f64_of_int cnt) = round64 (of_int failures / of_int cnt)"
proof -
  have "f64_of_int failures = Fin (of_int failures)" "f64_of_int cnt = Fin (of_int cnt)"
    using assms by (simp_all add: f64_of_int_def round64_int)
  then show ?thesis using assms(1) by simp
qed

lemma count_failures_bounds: "0 \<le> count_failures os" "count_failures os \<le> int (length os)"
  by (simp_all add: count_failures_def)

text \<open>
  C6. \<open>IsHealthy\<close> of the passive checker returns true for a backend that was never
  recorded. Otherwise it trims the outcomes older than \<open>now - windowSize\<close> (for a log in
  time order these are all the outcomes before the cutoff) and stores the rest; it returns
  true when fewer than \<open>minRequests\<close> outcomes remain, and otherwise the result of the
  strict comparison of \<open>failures / count\<close> with \<open>errorThreshold\<close>, so a rate equal to
  the threshold gives false. The quotient is the \<open>float64\<close> quotient: the rounded
  fraction for a positive count, and a NaN, which is below no threshold, for a count
  of zero.
\<close>

theorem passive_is_healthy:
  "(pc_backends pc b = None \<longrightarrow> fst (PassiveChecker_IsHealthy pc now b))
   \<and> (pc_backends pc b = Some outcomes \<longrightarrow>
        (let cutoff = now + wrap64 (- windowSize pc);
             kept = trim outcomes cutoff;
             cnt = int (length kept);
             failures = count_failures kept;
             errorRate = f64_div (f64_of_int failures) (f64_of_int cnt);
             healthy = fst (PassiveChecker_IsHealthy pc now b)
         in pc_backends (snd (PassiveChecker_IsHealthy pc now b)) b = Some kept
            \<and> (sorted (map timestamp outcomes) \<longrightarrow>
                 kept = filter (\<lambda>outcome. \<not> timestamp outcome < cutoff) outcomes)
            \<and> (cnt < minRequests pc \<longrightarrow> healthy)
            \<and> (\<not> cnt < minRequests pc \<longrightarrow> healthy = f64_lt errorRate (errorThreshold pc))
            \<and> (\<not> cnt < minRequests pc \<and> errorRate = errorThreshold pc \<longrightarrow> \<not> healthy)
            \<and> (\<not> cnt < minRequests pc \<and> cnt = 0 \<longrightarrow> \<not> healthy)
            \<and> (0 < cnt \<and> cnt \<le> 2 ^ 53 \<longrightarrow>
                 errorRate = round64 (of_int failures / of_int cnt))))"
proof -
  have none: "pc_backends pc b = None \<longrightarrow> fst (PassiveChecker_IsHealthy pc now b)"
    by (simp add: PassiveChecker_IsHealthy_def)
  have some: "?thesis" if s: "pc_backends pc b = Some outcomes"
  proof -
    define cutoff where "cutoff = now + wrap64 (- windowSize pc)"
    define kept where "kept = trim outcomes cutoff"
    define errorRate where
      "errorRate = f64_div (f64_of_int (count_failures kept)) (f64_of_int (int (length kept)))"
    have stored: "pc_backends (snd (PassiveChecker_IsHealthy pc now b)) b = Some kept"
      by (simp add: PassiveChecker_IsHealthy_def s Let_def kept_def cutoff_def)
    have srt: "sorted (map timestamp outcomes) \<longrightarrow>
        kept = filter (\<lambda>outcome. \<not> timestamp outcome < cutoff) outcomes"
      by (simp add: kept_def trim_sorted)
    have few: "int (length kept) < minRequests pc \<longrightarrow> fst (PassiveChecker_IsHealthy pc now b)"
      by (simp add: PassiveChecker_IsHealthy_def s Let_def kept_def cutoff_def)
    have enough: "\<not> int (length kept) < minRequests pc \<longrightarrow>
        fst (PassiveChecker_IsHealthy pc now b) = f64_lt errorRate (errorThreshold pc)"
      by (simp add: PassiveChecker_IsHealthy_def s Let_def kept_def cutoff_def errorRate_def)
    have equal: "\<not> int (length kept) < minRequests pc \<and> errorRate = errorThreshold pc \<longrightarrow>
        \<not> fst (PassiveChecker_IsHealthy pc now b)"
      using enough by (simp add: f64_lt_irrefl)
    have "int (length kept) = 0 \<longrightarrow> errorRate = NaN"
      by (simp add: errorRate_def count_failures_def f64_of_int_def round64_def)
    then have zero: "\<not> int (length kept) < minRequests pc \<and> int (length kept) = 0 \<longrightarrow>
        \<not> fst (PassiveChecker_IsHealthy pc now b)"
      using enough by auto
    have rounded: "0 < int (length kept) \<and> int (length kept) \<le> 2 ^ 53 \<longrightarrow>
        errorRate = round64 (of_int (count_failures kept) / of_int (int (length kept)))"
      unfolding errorRate_def
      using error_rate_rounded [of "int (length kept)" "count_failures kept"]
        count_failures_bounds [of kept] by blast
    show ?thesis
      unfolding Let_def
      using none stored srt few enough equal zero rounded
      unfolding kept_def cutoff_def errorRate_def by blast
  qed
  show ?thesis
  proof (cases "pc_backends pc b = Some outcomes")
    case True
    then show ?thesis by (rule some)
  next
    case False
    then show ?thesis using none by simp
  qed
qed

text \<open>
  Four outcomes in the window, two of them failures, against a threshold of one half and
  a minimum of four requests: the rate equals the threshold and the backend is unhealthy.
\<close>

theorem passive_is_healthy_witness:
  "(let outcomes = [\<lparr>timestamp = 0, success = False\<rparr>, \<lparr>timestamp = 100, success = False\<rparr>,
                    \<lparr>timestamp = 105, success = True\<rparr>, \<lparr>timestamp = 110, success = False\<rparr>,
                    \<lparr>timestamp = 115, success = True\<rparr>];
        pc = \<lparr>pc_backends = [''http://a:8080'' \<mapsto> outcomes], windowSize = 50,
              errorThreshold = Fin (1 / 2), minRequests = 4\<rparr>
    in pc_backends pc ''http://b:8080'' = None
       \<and> fst (PassiveChecker_IsHealthy pc 120 ''http://b:8080'')
       \<and> pc_backends pc ''http://a:8080'' = Some outcomes
       \<and> sorted (map timestamp outcomes)
       \<and> trim outcomes (120 + wrap64 (- windowSize pc)) = tl outcomes
       \<and> count_failures (tl outcomes) = 2
       \<and> f64_div (f64_of_int 2) (f64_of_int 4) = errorThreshold pc
       \<and> \<not> fst (PassiveChecker_IsHealthy pc 120 ''http://a:8080'')
       \<and> fst (PassiveChecker_IsHealthy (pc\<lparr>minRequests := 5\<rparr>) 120 ''http://a:8080'')
       \<and> fst (PassiveChecker_IsHealthy (pc\<lparr>errorThreshold := Fin (51 / 100)\<rparr>) 120 ''http://a:8080''))"
proof -
  have w: "wrap64 (- 50) = - 50"
    by (simp add: wrap64_id)
  have r: "round64 2 = Fin 2" "round64 4 = Fin 4"
    using round64_int [of 2] round64_int [of 4] by simp_all
  have h: "round64 (1 / 2) = Fin (1 / 2)"
    by code_simp
  show ?thesis
    using passive_is_healthy
      [of "\<lparr>pc_backends = [''http://a:8080'' \<mapsto>
              [\<lparr>timestamp = 0, success = False\<rparr>, \<lparr>timestamp = 100, success = False\<rparr>,
               \<lparr>timestamp = 105, success = True\<rparr>, \<lparr>timestamp = 110, success = False\<rparr>,
               \<lparr>timestamp = 115, success = True\<rparr>]], windowSize = 50,
            errorThreshold = Fin (1 / 2), minRequests = 4\<rparr>"
          "''http://a:8080''" 120
          "[\<lparr>timestamp = 0, success = False\<rparr>, \<lparr>timestamp = 100, success = False\<rparr>,
            \<lparr>timestamp = 105, success = True\<rparr>, \<lparr>timestamp = 110, success = False\<rparr>,
            \<lparr>timestamp = 115, success = True\<rparr>]"]
    by (simp add: PassiveChecker_IsHealthy_def Let_def trim_def count_failures_def
          f64_of_int_def w r h)
qed


section \<open>Durations in seconds\<close>

text \<open>A positive value in the normal range keeps its power-of-two lower bound when rounded.\<close>

lemma round64_lower:
  assumes "x > 0" "2 powi k \<le> x" "- 1022 \<le> k"
  shows "round64 x = PInf \<or> (\<exists>y. round64 x = Fin y \<and> 2 powi k \<le> y)"
proof -
  have ax: "\<bar>x\<bar> = x" using assms by simp
  have ke: "k \<le> flog2 x" using assms by (intro flog2_ge)
  then have e: "- 1022 \<le> flog2 x" using assms(3) by simp
  then have q: "ulp_exp x = flog2 x - 52" by (simp add: ulp_exp_def Let_def)
  have p: "(2::rat) powi ulp_exp x > 0" by simp
  have "(2::rat) powi (52 + ulp_exp x) = 2 powi 52 * 2 powi ulp_exp x"
    by (rule power_int_add) simp
  then have split: "(2::rat) powi 52 * 2 powi ulp_exp x = 2 powi flog2 x"
    by (simp only: q) simp
  also have "\<dots> \<le> x" using flog2_bounds(1) [OF assms(1)] .
  finally have "(2::rat) powi 52 \<le> x / 2 powi ulp_exp x"
    using p by (simp only: pos_le_divide_eq)
  then have "(of_int (2 ^ 52) :: rat) \<le> x / 2 powi ulp_exp x" by simp
  then have "2 ^ 52 \<le> rhe (x / 2 powi ulp_exp x)" by (rule rhe_mono_int)
  then have "(of_int (2 ^ 52) :: rat) \<le> of_int (rhe (x / 2 powi ulp_exp x))"
    by (simp only: of_int_le_iff)
  then have "(2::rat) powi 52 \<le> of_int (rhe (x / 2 powi ulp_exp x))" by simp
  then have "(2::rat) powi 52 * 2 powi ulp_exp x \<le> round_pos x"
    unfolding round_pos_def using p by (intro mult_right_mono) simp_all
  then have "(2::rat) powi flog2 x \<le> round_pos x" by (simp only: split)
  moreover have "(2::rat) powi k \<le> 2 powi flog2 x" using ke by (rule powi_mono)
  ultimately have lower: "(2::rat) powi k \<le> round_pos x" by simp
  show ?thesis
    using assms(1) lower by (simp add: round64_def ax Let_def)
qed



lemma go_quot_rem_bounds:
  assumes "- (2 ^ 63) \<le> d" "d < 2 ^ 63"
  shows "\<bar>go_quot d 1000000000\<bar> \<le> 2 ^ 53" "\<bar>go_rem d 1000000000\<bar> < 1000000000"
    "0 \<le> d \<Longrightarrow> 0 \<le> go_quot d 1000000000 \<and> 0 \<le> go_rem d 1000000000"
    "0 < d \<Longrightarrow> go_quot d 1000000000 = 0 \<Longrightarrow> 1 \<le> go_rem d 1000000000"
proof -
  have a: "\<bar>d\<bar> \<le> 2 ^ 63" using assms by simp
  then have "\<bar>d\<bar> div 1000000000 \<le> 2 ^ 63 div 1000000000" by (rule zdiv_mono1) simp
  then have dv: "\<bar>d\<bar> div 1000000000 \<le> 2 ^ 53" by simp
  have dn: "0 \<le> \<bar>d\<bar> div 1000000000" by (simp add: pos_imp_zdiv_nonneg_iff)
  have md: "0 \<le> \<bar>d\<bar> mod 1000000000" "\<bar>d\<bar> mod 1000000000 < 1000000000" by simp_all
  show "\<bar>go_quot d 1000000000\<bar> \<le> 2 ^ 53"
    using dv dn by (cases "0 < d"; cases "d = 0") (simp_all add: go_quot_def abs_mult)
  show "\<bar>go_rem d 1000000000\<bar> < 1000000000"
    using md by (cases "0 < d"; cases "d = 0") (simp_all add: go_rem_def abs_mult)
  show "0 \<le> d \<Longrightarrow> 0 \<le> go_quot d 1000000000 \<and> 0 \<le> go_rem d 1000000000"
    using dn md by (cases "0 < d"; cases "d = 0") (simp_all add: go_quot_def go_rem_def)
  show "0 < d \<Longrightarrow> go_quot d 1000000000 = 0 \<Longrightarrow> 1 \<le> go_rem d 1000000000"
  proof -
    assume d: "0 < d" and "go_quot d 1000000000 = 0"
    then have "d div 1000000000 = 0" by (simp add: go_quot_def sgn_if)
    then have "d mod 1000000000 = d" using d by (simp add: div_eq_0_iff) 
    then show ?thesis using d by (simp add: go_rem_def sgn_if)
  qed
qed

lemma Seconds_fin:
  assumes "- (2 ^ 63) \<le> d" "d < 2 ^ 63"
  shows "\<exists>s. Seconds d = Fin s \<and> (0 \<le> d \<longrightarrow> 0 \<le> s) \<and> (0 < d \<longrightarrow> 0 < s)"
proof -
  define sec where "sec = go_quot d 1000000000"
  define nsec where "nsec = go_rem d 1000000000"
  note b = go_quot_rem_bounds [OF assms, folded sec_def nsec_def]
  have fs: "f64_of_int sec = Fin (of_int sec)"
    using b(1) by (simp add: f64_of_int_def round64_int)
  have "\<bar>nsec\<bar> \<le> 2 ^ 53" using b(2) by simp
  then have fn: "f64_of_int nsec = Fin (of_int nsec)"
    by (simp add: f64_of_int_def round64_int)
  define x where "x = (of_int nsec :: rat) / 1000000000"
  have xb: "\<bar>x\<bar> \<le> 1" using b(2) by (simp add: x_def)
  then have "\<bar>x\<bar> \<le> 2 ^ 1000" by (rule order_trans) simp
  from round64_finite [OF this] obtain y where y: "round64 x = Fin y" "\<bar>y\<bar> \<le> 2 * \<bar>x\<bar> + 1"
    "0 \<le> x \<longrightarrow> 0 \<le> y" "x \<le> 0 \<longrightarrow> y \<le> 0"
    by blast
  have dv: "f64_div (f64_of_int nsec) (Fin 1000000000) = Fin y"
    by (simp add: fn y(1) [unfolded x_def])
  have yb: "\<bar>y\<bar> \<le> 3" using y(2) xb by simp
  have sb: "\<bar>(of_int sec :: rat)\<bar> \<le> 2 ^ 53"
  proof -
    have "(of_int \<bar>sec\<bar> :: rat) \<le> of_int (2 ^ 53)" using b(1) by (simp only: of_int_le_iff)
    then show ?thesis by simp
  qed
  have "\<bar>of_int sec + y\<bar> \<le> 2 ^ 53 + 3" using sb yb by linarith
  then have "\<bar>of_int sec + y\<bar> \<le> 2 ^ 1000" by (rule order_trans) simp
  from round64_finite [OF this] obtain s where s: "round64 (of_int sec + y) = Fin s"
    "0 \<le> of_int sec + y \<longrightarrow> 0 \<le> s"
    by blast
  have S: "Seconds d = Fin s"
    by (simp add: Seconds_def Let_def fs dv s(1) flip: sec_def nsec_def)
  have nonneg: "0 \<le> d \<longrightarrow> 0 \<le> s"
  proof
    assume "0 \<le> d"
    then have "0 \<le> sec" "0 \<le> nsec" using b(3) by simp_all
    then have "0 \<le> x" by (simp add: x_def)
    then have "0 \<le> y" using y(3) by simp
    then have "0 \<le> of_int sec + y" using \<open>0 \<le> sec\<close> by simp
    then show "0 \<le> s" using s(2) by simp
  qed
  have pos: "0 < d \<longrightarrow> 0 < s"
  proof
    assume d: "0 < d"
    then have sn: "0 \<le> sec" "0 \<le> nsec" using b(3) by simp_all
    then have x0: "0 \<le> x" by (simp add: x_def)
    then have y0: "0 \<le> y" using y(3) by simp
    have low: "(2::rat) powi (- 30) \<le> of_int sec + y"
    proof (cases "sec = 0")
      case True
      then have "1 \<le> nsec" using b(4) d by simp
      then have "(1::rat) \<le> of_int nsec" by simp
      then have "(1::rat) / 1000000000 \<le> x" by (simp add: x_def)
      moreover have "(2::rat) powi (- 30) \<le> 1 / 1000000000" by (simp add: power_int_minus)
      ultimately have px: "(2::rat) powi (- 30) \<le> x" by simp
      moreover have "0 < x" using px by (rule less_le_trans [rotated]) simp 
      ultimately have "round64 x = PInf \<or> (\<exists>y. round64 x = Fin y \<and> 2 powi (- 30) \<le> y)"
        by (intro round64_lower) simp_all
      then have "(2::rat) powi (- 30) \<le> y" using y(1) by simp
      then show ?thesis using True by simp
    next
      case False
      then have "1 \<le> sec" using sn by simp
      then have "(1::rat) \<le> of_int sec" by simp
      moreover have "(2::rat) powi (- 30) \<le> 1" by (simp add: power_int_minus)
      ultimately show ?thesis using y0 by linarith
    qed
    have "0 < of_int sec + y" using low by (rule less_le_trans [rotated]) simp
    then have "round64 (of_int sec + y) = PInf
        \<or> (\<exists>z. round64 (of_int sec + y) = Fin z \<and> 2 powi (- 30) \<le> z)"
      using low by (intro round64_lower) simp_all
    then have "(2::rat) powi (- 30) \<le> s" using s(1) by simp
    then show "0 < s" by (rule less_le_trans [rotated]) simp
  qed
  show ?thesis using S nonneg pos by blast
qed

section \<open>Sliding window: the reset after two idle windows\<close>

lemma f64_of_int_small: "\<bar>n\<bar> \<le> 2 ^ 53 \<Longrightarrow> f64_of_int n = Fin (of_int n)"
  by (simp add: f64_of_int_def round64_int)



lemma Sub_le_max: "Sub a b < 2 ^ 63"
  by (simp add: Sub_def Let_def maxDuration_def minDuration_def)










section \<open>Token bucket with rate zero\<close>

lemma Sub_ge_min: "- (2 ^ 63) \<le> Sub a b"
  by (simp add: Sub_def Let_def maxDuration_def minDuration_def)

text \<open>One call of \<open>Allow\<close> on a bucket with rate zero that holds \<open>k\<close> whole tokens.\<close>

lemma tb_allow_rate_zero:
  assumes "tb_rate tb = Fin 0" "tb_tokens tb = Fin (of_int k)" "tb_capacity tb = Fin (of_int c)"
    and "0 \<le> k" "k \<le> c" "c \<le> 2 ^ 53"
  shows "TokenBucket_Allow impl tb now =
           (if 1 \<le> k
            then ((True, 0), tb\<lparr>tb_tokens := Fin (of_int (k - 1)), tb_lastRefill := now\<rparr>)
            else ((False, impl PInf), tb\<lparr>tb_lastRefill := now\<rparr>))"
proof -
  obtain a where a: "Seconds (Sub now (tb_lastRefill tb)) = Fin a"
    using Seconds_fin [OF Sub_ge_min Sub_le_max] by blast
  have r0: "round64 0 = Fin 0" by (simp add: round64_def)
  have rk: "round64 (of_int k) = Fin (of_int k)" using assms(4,5,6) by (intro round64_int) simp
  have t1: "f64_add (tb_tokens tb) (f64_mul (Seconds (Sub now (tb_lastRefill tb))) (tb_rate tb))
            = Fin (of_int k)"
    by (simp add: assms(1,2) a r0 rk)
  have cap: "\<not> f64_gt (Fin (of_int k)) (tb_capacity tb)"
    using assms(5) by (simp add: f64_gt_def assms(3))
  show ?thesis
  proof (cases "1 \<le> k")
    case True
    have ge: "f64_ge (Fin (of_int k)) (Fin 1)" using True by (simp add: f64_ge_def)
    have "round64 (of_int (k - 1)) = Fin (of_int (k - 1))"
      using True assms(5,6) by (intro round64_int) simp
    then have sub: "f64_sub (Fin (of_int k)) (Fin 1) = Fin (of_int (k - 1))"
      by (simp add: f64_sub_def)
    show ?thesis
      using True by (simp add: TokenBucket_Allow_def Let_def t1 cap ge sub)
  next
    case False
    then have k0: "k = 0" using assms(4) by simp
    have ge: "\<not> f64_ge (Fin 0) (Fin 1)" by (simp add: f64_ge_def)
    have r1: "round64 1 = Fin 1" using round64_int [of 1] by simp
    have g: "f64_of_int 1000000000 = Fin 1000000000"
      using f64_of_int_small [of 1000000000] by simp
    have wait: "f64_mul (f64_div (f64_sub (Fin 1) (Fin 0)) (tb_rate tb)) (f64_of_int 1000000000)
                = PInf"
      by (simp add: f64_sub_def r1 assms(1) g)
    have tbe: "tb\<lparr>tb_tokens := Fin 0, tb_lastRefill := now\<rparr> = tb\<lparr>tb_lastRefill := now\<rparr>"
      using assms(2) k0 by simp
    show ?thesis
      using t1 cap ge wait
      by (simp add: TokenBucket_Allow_def Let_def k0 f64_to_int64_def tbe)
  qed
qed

lemma tb_calls_Cons:
  "fst (tb_calls impl tb (u # us))
   = fst (TokenBucket_Allow impl tb u) # fst (tb_calls impl (snd (TokenBucket_Allow impl tb u)) us)"
  by (simp add: split_beta)

text \<open>
  With rate zero a bucket that holds \<open>k\<close> whole tokens admits the next \<open>k\<close> calls and
  refuses every later one, and the retry-after of a refusal is the conversion of the
  quotient \<open>1 / 0\<close>, an infinity, to a 64-bit integer.
\<close>

lemma tb_calls_rate_zero:
  assumes "tb_rate tb = Fin 0" "tb_tokens tb = Fin (of_int k)" "tb_capacity tb = Fin (of_int c)"
    and "0 \<le> k" "k \<le> c" "c \<le> 2 ^ 53"
  shows "fst (tb_calls impl tb ts) =
           replicate (min (length ts) (nat k)) (True, 0)
           @ replicate (length ts - nat k) (False, impl PInf)"
  using assms
proof (induction ts arbitrary: tb k)
  case Nil
  then show ?case by simp
next
  case (Cons u us)
  note step = tb_allow_rate_zero [OF Cons.prems, of impl u]
  show ?case
  proof (cases "1 \<le> k")
    case True
    let ?tb1 = "tb\<lparr>tb_tokens := Fin (of_int (k - 1)), tb_lastRefill := u\<rparr>"
    have s: "TokenBucket_Allow impl tb u = ((True, 0), ?tb1)"
      using step True by simp
    have ih: "fst (tb_calls impl ?tb1 us) =
           replicate (min (length us) (nat (k - 1))) (True, 0)
           @ replicate (length us - nat (k - 1)) (False, impl PInf)"
      using Cons.prems True by (intro Cons.IH) simp_all
    have n: "nat k = Suc (nat (k - 1))" using True by simp
    show ?thesis
      using ih by (simp add: tb_calls_Cons s n del: tb_calls.simps)
  next
    case False
    then have k0: "k = 0" using Cons.prems(4) by simp
    let ?tb1 = "tb\<lparr>tb_lastRefill := u\<rparr>"
    have s: "TokenBucket_Allow impl tb u = ((False, impl PInf), ?tb1)"
      using step False by simp
    have ih: "fst (tb_calls impl ?tb1 us) =
           replicate (min (length us) (nat k)) (True, 0)
           @ replicate (length us - nat k) (False, impl PInf)"
      using Cons.prems by (intro Cons.IH) simp_all
    show ?thesis
      using ih by (simp add: tb_calls_Cons s k0 del: tb_calls.simps)
  qed
qed

text \<open>
  C2. A bucket created full with capacity 2 and rate 0 admits two calls and refuses the
  third. The retry-after of the refusal is \<open>time.Duration(deficit / rate * 1e9)\<close> with
  \<open>rate = 0\<close>: the conversion of an infinity, which the language leaves to the
  implementation. With the conversion of amd64 it is the smallest duration, so it is not
  positive.
\<close>

theorem token_bucket_rate_zero_retry_after:
  "fst (tb_calls impl (NewTokenBucket 2 (Fin 0) 0) [1000, 2000, 3000])
     = [(True, 0), (True, 0), (False, impl PInf)]
   \<and> fst (tb_calls amd64_conversion (NewTokenBucket 2 (Fin 0) 0) [1000, 2000, 3000])
     = [(True, 0), (True, 0), (False, - (2 ^ 63))]
   \<and> \<not> 0 < snd (last (fst (tb_calls amd64_conversion (NewTokenBucket 2 (Fin 0) 0)
                                [1000, 2000, 3000])))"
proof -
  have n: "NewTokenBucket 2 (Fin 0) 0
           = \<lparr>tb_tokens = Fin (of_int 2), tb_capacity = Fin (of_int 2), tb_rate = Fin 0,
              tb_lastRefill = 0\<rparr>"
    using f64_of_int_small [of 2] by (simp add: NewTokenBucket_def)
  have run: "fst (tb_calls i (NewTokenBucket 2 (Fin 0) 0) [1000, 2000, 3000])
     = [(True, 0), (True, 0), (False, i PInf)]" for i
    unfolding n
    by (simp add: tb_allow_rate_zero [where k = 2 and c = 2]
          tb_allow_rate_zero [where k = 1 and c = 2] tb_allow_rate_zero [where k = 0 and c = 2])
  show ?thesis
    by (simp only: run amd64_conversion_def) simp
qed

section \<open>Smooth weighted round robin: the sequence and the counts\<close>

text \<open>
  The recursion equation of the loop is unfolded by hand, one iteration at a time.
\<close>

declare wrr_loop.simps [simp del]

lemma wrr_loop_entries:
  "fst (wrr_loop es i b) = take i es @ map bump64 (drop i es)"
proof (induction es i b rule: wrr_loop.induct)
  case (1 es i b)
  show ?case
  proof (cases "i < length es")
    case True
    let ?es1 = "es[i := bump64 (es ! i)]"
    let ?b1 = "if currentWeight (?es1 ! i) > currentWeight (?es1 ! b) then i else b"
    have ih: "fst (wrr_loop ?es1 (i + 1) ?b1) = take (i + 1) ?es1 @ map bump64 (drop (i + 1) ?es1)"
      using "1.IH" [OF True refl refl] by (simp add: bump64_def)
    have unfold: "wrr_loop es i b = wrr_loop ?es1 (i + 1) ?b1"
      using True by (subst wrr_loop.simps) (simp add: Let_def bump64_def)
    have t: "take (i + 1) ?es1 = take i es @ [bump64 (es ! i)]"
      using True by (simp add: take_Suc_conv_app_nth)
    have d: "drop (i + 1) ?es1 = drop (i + 1) es" by simp
    have "drop i es = es ! i # drop (i + 1) es"
      using True by (simp add: Cons_nth_drop_Suc)
    then show ?thesis
      by (simp only: unfold ih t d) simp
  next
    case False
    then show ?thesis by (subst wrr_loop.simps) simp
  qed
qed

lemma wrr_loop_best:
  assumes "b < length es" "\<forall>j < i. currentWeight (es ! j) \<le> currentWeight (es ! b)"
    and "b < i \<or> (i = 0 \<and> b = 0)"
  shows "snd (wrr_loop es i b) < length es
         \<and> (\<forall>j < length es. currentWeight (fst (wrr_loop es i b) ! j)
               \<le> currentWeight (fst (wrr_loop es i b) ! snd (wrr_loop es i b)))"
  using assms
proof (induction es i b rule: wrr_loop.induct)
  case (1 es i b)
  show ?case
  proof (cases "i < length es")
    case True
    let ?es1 = "es[i := bump64 (es ! i)]"
    let ?b1 = "if currentWeight (?es1 ! i) > currentWeight (?es1 ! b) then i else b"
    have unfold: "wrr_loop es i b = wrr_loop ?es1 (i + 1) ?b1"
      using True by (subst wrr_loop.simps) (simp add: Let_def bump64_def)
    have p1: "?b1 < length ?es1" using True "1.prems"(1) by simp
    have p2: "\<forall>j < i + 1. currentWeight (?es1 ! j) \<le> currentWeight (?es1 ! ?b1)"
    proof (intro allI impI)
      fix j assume j: "j < i + 1"
      show "currentWeight (?es1 ! j) \<le> currentWeight (?es1 ! ?b1)"
      proof (cases "j = i")
        case True
        then show ?thesis by simp
      next
        case False
        then have ji: "j < i" using j by simp
        then have old: "currentWeight (es ! j) \<le> currentWeight (es ! b)"
          using "1.prems"(2) by simp
        have bi: "b \<noteq> i" using "1.prems"(3) ji by auto
        have "?es1 ! j = es ! j" using False by simp
        moreover have "?es1 ! b = es ! b" using bi by simp
        ultimately show ?thesis using old by auto
      qed
    qed
    have p3: "?b1 < i + 1 \<or> (i + 1 = 0 \<and> ?b1 = 0)"
      using "1.prems"(3) by auto
    have "snd (wrr_loop ?es1 (i + 1) ?b1) < length ?es1
         \<and> (\<forall>j < length ?es1. currentWeight (fst (wrr_loop ?es1 (i + 1) ?b1) ! j)
               \<le> currentWeight (fst (wrr_loop ?es1 (i + 1) ?b1) ! snd (wrr_loop ?es1 (i + 1) ?b1)))"
      using "1.IH" [OF True _ _ p1 p2 p3] by (simp add: bump64_def)
    then show ?thesis
      by (simp only: unfold) simp
  next
    case False
    have e: "wrr_loop es i b = (es, b)"
      using False by (subst wrr_loop.simps) simp
    have "\<forall>j < length es. currentWeight (es ! j) \<le> currentWeight (es ! b)"
      using "1.prems"(2) False by simp
    then show ?thesis
      using "1.prems"(1) by (simp add: e)
  qed
qed

lemma sum_list_lower: "(\<forall>y \<in> set xs. l \<le> y) \<Longrightarrow> int (length xs) * l \<le> sum_list xs"
  by (induction xs) (auto simp add: algebra_simps)

lemma sum_list_upper: "(\<forall>y \<in> set xs. y \<le> m) \<Longrightarrow> sum_list xs \<le> int (length xs) * m"
  by (induction xs) (auto simp add: algebra_simps)

lemma elem_upper:
  "(\<forall>y \<in> set xs. l \<le> y) \<Longrightarrow> x \<in> set xs \<Longrightarrow> x + (int (length xs) - 1) * l \<le> sum_list xs"
proof (induction xs)
  case Nil
  then show ?case by simp
next
  case (Cons y ys)
  show ?case
  proof (cases "x = y")
    case True
    have "int (length ys) * l \<le> sum_list ys"
      using Cons.prems(1) by (intro sum_list_lower) simp
    then show ?thesis using True by (simp add: algebra_simps)
  next
    case False
    then have "x \<in> set ys" using Cons.prems(2) by simp
    then have "x + (int (length ys) - 1) * l \<le> sum_list ys"
      using Cons.prems(1) by (intro Cons.IH) simp_all
    moreover have "l \<le> y" using Cons.prems(1) by simp
    ultimately show ?thesis by (simp add: algebra_simps)
  qed
qed

text \<open>Under the invariant no addition of \<open>Next\<close> leaves the 64-bit range.\<close>

lemma wrr_inv_ranges:
  assumes inv: "wrr_inv wrr" and e: "e \<in> set (wrr_entries wrr)"
  shows "1 \<le> we_weight e" "we_weight e \<le> totalWeight wrr"
    "int (length (wrr_entries wrr)) \<le> totalWeight wrr"
    "- totalWeight wrr < currentWeight e"
    "currentWeight e + we_weight e \<le> int (length (wrr_entries wrr)) * totalWeight wrr"
    "totalWeight wrr < 2 ^ 63"
proof -
  let ?es = "wrr_entries wrr" and ?T = "totalWeight wrr"
  let ?N = "int (length ?es)"
  have w1: "\<forall>y \<in> set (map we_weight ?es). 1 \<le> y" using inv by (auto simp add: wrr_inv_def)
  have sw: "sum_list (map we_weight ?es) = ?T" using inv by (simp add: wrr_inv_def)
  have sc: "sum_list (map currentWeight ?es) = 0" using inv by (simp add: wrr_inv_def)
  have c1: "\<forall>y \<in> set (map currentWeight ?es). 1 - ?T \<le> y"
    using inv by (auto simp add: wrr_inv_def)
  have range: "?N * ?T < 2 ^ 63" using inv by (simp add: wrr_inv_def)
  show a: "1 \<le> we_weight e" using w1 e by simp
  have "we_weight e + (int (length (map we_weight ?es)) - 1) * 1 \<le> sum_list (map we_weight ?es)"
    using w1 e by (intro elem_upper) simp_all
  then have wN: "we_weight e + ?N - 1 \<le> ?T" using sw by simp
  have N1: "1 \<le> ?N" using e by (cases ?es) auto
  show b: "we_weight e \<le> ?T" using wN N1 by simp
  have "int (length (map we_weight ?es)) * 1 \<le> sum_list (map we_weight ?es)"
    using w1 by (rule sum_list_lower)
  then show c: "?N \<le> ?T" using sw by simp
  show d: "- ?T < currentWeight e" using c1 e by auto
  have "currentWeight e + (int (length (map currentWeight ?es)) - 1) * (1 - ?T)
        \<le> sum_list (map currentWeight ?es)"
    using c1 e by (intro elem_upper) simp_all
  then have "currentWeight e \<le> (?N - 1) * (?T - 1)" using sc by (simp add: algebra_simps)
  also have "\<dots> \<le> (?N - 1) * ?T"
  proof -
    have "0 \<le> ?N - 1" using N1 by linarith
    moreover have "?T - 1 \<le> ?T" by simp
    ultimately show ?thesis by (rule mult_left_mono [rotated])
  qed
  finally have "currentWeight e + we_weight e \<le> (?N - 1) * ?T + ?T" using b by simp
  then show "currentWeight e + we_weight e \<le> ?N * ?T" by (simp add: algebra_simps)
  have "?T = 1 * ?T" by simp
  also have "\<dots> \<le> ?N * ?T"
  proof -
    have "0 \<le> ?T" using a b by linarith
    with N1 show ?thesis by (rule mult_right_mono)
  qed
  finally show "?T < 2 ^ 63" using range by simp
qed

lemma bump64_inside:
  assumes "wrr_inv wrr" "e \<in> set (wrr_entries wrr)"
  shows "bump64 e = e\<lparr>currentWeight := currentWeight e + we_weight e\<rparr>"
proof -
  note r = wrr_inv_ranges [OF assms]
  have range: "int (length (wrr_entries wrr)) * totalWeight wrr < 2 ^ 63"
    using assms(1) by (simp add: wrr_inv_def)
  have "wrap64 (currentWeight e + we_weight e) = currentWeight e + we_weight e"
    using r range by (intro wrap64_id) linarith+
  then show ?thesis by (simp add: bump64_def)
qed

lemma sum_list_update_int:
  "k < length xs \<Longrightarrow> sum_list (xs[k := x]) = sum_list xs - xs ! k + (x::int)"
proof (induction xs arbitrary: k)
  case Nil
  then show ?case by simp
next
  case (Cons y ys)
  then show ?case by (cases k) simp_all
qed

lemma after_pick_fields [simp]:
  "we_addr (after_pick a T e) = we_addr e" "we_weight (after_pick a T e) = we_weight e"
  "currentWeight (after_pick a T e)
     = currentWeight e + we_weight e - (if we_addr e = a then T else 0)"
  by (simp_all add: after_pick_def)

text \<open>
  One call of \<open>Next\<close> under the invariant: it returns the address of an entry, every
  entry gains its weight, the entry returned loses the total weight, and the invariant
  holds again.
\<close>

lemma wrr_next_inside:
  assumes inv: "wrr_inv wrr" and ne: "wrr_entries wrr \<noteq> []"
  shows "\<exists>a \<in> set (map we_addr (wrr_entries wrr)).
           WeightedRoundRobin_Next wrr
             = (a, wrr\<lparr>wrr_entries := map (after_pick a (totalWeight wrr)) (wrr_entries wrr)\<rparr>)
           \<and> wrr_inv (wrr\<lparr>wrr_entries := map (after_pick a (totalWeight wrr)) (wrr_entries wrr)\<rparr>)"
proof -
  let ?es = "wrr_entries wrr" and ?T = "totalWeight wrr"
  let ?N = "int (length ?es)"
  define es' where "es' = map bump64 ?es"
  define b where "b = snd (wrr_loop ?es 0 0)"
  have loop: "wrr_loop ?es 0 0 = (es', b)"
    using wrr_loop_entries [of ?es 0 0] by (simp add: es'_def b_def prod_eq_iff)
  have len: "length es' = length ?es" by (simp add: es'_def)
  have "0 < length ?es" using ne by simp
  then have best: "b < length ?es"
    "\<forall>j < length ?es. currentWeight (es' ! j) \<le> currentWeight (es' ! b)"
    using wrr_loop_best [of 0 ?es 0] by (simp_all add: loop)
  have bump: "es' ! j = (?es ! j)\<lparr>currentWeight := currentWeight (?es ! j) + we_weight (?es ! j)\<rparr>"
    if "j < length ?es" for j
    using that bump64_inside [OF inv, of "?es ! j"] by (simp add: es'_def)
  have cur': "map currentWeight es' = map (\<lambda>e. currentWeight e + we_weight e) ?es"
    using bump by (intro nth_equalityI) (simp_all add: len)
  have sw: "sum_list (map we_weight ?es) = ?T" and sc: "sum_list (map currentWeight ?es) = 0"
    and dist: "distinct (map we_addr ?es)" and range: "?N * ?T < 2 ^ 63"
    using inv by (simp_all add: wrr_inv_def)
  have sum': "sum_list (map currentWeight es') = ?T"
    by (simp add: cur' sum_list_addf sw sc)
  note rb = wrr_inv_ranges [OF inv, of "?es ! b"]
  have eb: "?es ! b \<in> set ?es" using best(1) by simp
  let ?m = "currentWeight (es' ! b)"
  have m: "?m = currentWeight (?es ! b) + we_weight (?es ! b)"
    using bump [OF best(1)] by simp
  have "\<forall>y \<in> set (map currentWeight es'). y \<le> ?m"
    using best(2) by (auto simp add: in_set_conv_nth len)
  then have "sum_list (map currentWeight es') \<le> int (length (map currentWeight es')) * ?m"
    by (rule sum_list_upper)
  then have "?T \<le> ?N * ?m" by (simp add: sum' len)
  moreover have "1 \<le> ?T" using rb(1,2) [OF eb] by linarith
  ultimately have "0 < ?N * ?m" by linarith
  then have mpos: "0 < ?m" by (simp add: zero_less_mult_iff)
  have "?m \<le> ?N * ?T" using rb(5) [OF eb] m by simp
  then have w: "wrap64 (?m - ?T) = ?m - ?T"
    using mpos range rb(1,2,6) [OF eb] by (intro wrap64_id) linarith+
  define a where "a = we_addr (?es ! b)"
  define es1 where "es1 = es'[b := (es' ! b)\<lparr>currentWeight := ?m - ?T\<rparr>]"
  have nxt: "WeightedRoundRobin_Next wrr = (we_addr (es1 ! b), wrr\<lparr>wrr_entries := es1\<rparr>)"
    using ne by (simp add: WeightedRoundRobin_Next_def loop Let_def w es1_def)
  have addr: "we_addr (es1 ! b) = a"
    using best(1) bump [OF best(1)] by (simp add: es1_def len a_def)
  have es1: "es1 = map (after_pick a ?T) ?es"
  proof (rule nth_equalityI)
    show "length es1 = length (map (after_pick a ?T) ?es)" by (simp add: es1_def len)
  next
    fix j assume "j < length es1"
    then have j: "j < length ?es" by (simp add: es1_def len)
    show "es1 ! j = map (after_pick a ?T) ?es ! j"
    proof (cases "j = b")
      case True
      then show ?thesis
        using j bump [OF j] m by (simp add: es1_def len after_pick_def a_def)
    next
      case False
      have "(map we_addr ?es ! j = map we_addr ?es ! b) = (j = b)"
        using dist j best(1) by (intro nth_eq_iff_index_eq) simp_all
      then have "we_addr (?es ! j) \<noteq> a" using False j best(1) by (simp add: a_def)
      then show ?thesis
        using False j bump [OF j] by (simp add: es1_def len after_pick_def)
    qed
  qed
  have ain: "a \<in> set (map we_addr ?es)" using best(1) by (simp add: a_def)
  have inv': "wrr_inv (wrr\<lparr>wrr_entries := es1\<rparr>)"
  proof -
    have i1: "distinct (map we_addr es1)"
      using dist by (simp add: es1 comp_def)
    have i2: "\<forall>e \<in> set es1. 1 \<le> we_weight e"
      using inv by (auto simp add: es1 wrr_inv_def)
    have i3: "sum_list (map we_weight es1) = ?T"
      using sw by (simp add: es1 comp_def)
    have "map currentWeight es1 = (map currentWeight es')[b := ?m - ?T]"
      by (simp add: es1_def map_update)
    then have "sum_list (map currentWeight es1)
               = sum_list (map currentWeight es') - map currentWeight es' ! b + (?m - ?T)"
      using best(1) by (simp add: sum_list_update_int len)
    then have i4: "sum_list (map currentWeight es1) = 0"
      using best(1) by (simp add: sum' len)
    have i5: "\<forall>e \<in> set es1. - ?T < currentWeight e"
    proof
      fix e assume "e \<in> set es1"
      then obtain j where j: "j < length ?es" "e = es1 ! j"
        by (auto simp add: in_set_conv_nth es1_def len)
      have ej: "?es ! j \<in> set ?es" using j(1) by simp
      note rj = wrr_inv_ranges [OF inv ej]
      show "- ?T < currentWeight e"
      proof (cases "j = b")
        case True
        then show ?thesis using j best(1) mpos by (simp add: es1_def len)
      next
        case False
        then show ?thesis using j bump [OF j(1)] rj(1,4) by (simp add: es1_def len)
      qed
    qed
    have i6: "int (length es1) * ?T < 2 ^ 63" using range by (simp add: es1)
    show ?thesis
      using i1 i2 i3 i4 i5 i6 by (simp add: wrr_inv_def)
  qed
  show ?thesis
    using ain nxt addr inv' by (auto simp add: es1)
qed

lemma after_picks_fields [simp]:
  "we_addr (after_picks picks T e) = we_addr e" "we_weight (after_picks picks T e) = we_weight e"
  "currentWeight (after_picks picks T e)
     = currentWeight e + int (length picks) * we_weight e - T * int (count_list picks (we_addr e))"
  by (simp_all add: after_picks_def)

lemma after_picks_Cons: "after_picks picks T (after_pick a T e) = after_picks (a # picks) T e"
  by (simp add: after_picks_def after_pick_def algebra_simps)

lemma after_picks_comp: "after_picks picks T \<circ> after_pick a T = after_picks (a # picks) T"
  by (rule ext) (simp add: after_picks_Cons)

lemma wrr_calls_inside:
  assumes "wrr_inv wrr" "wrr_entries wrr \<noteq> []"
  shows "\<exists>picks. length picks = n
           \<and> wrr_calls n wrr
               = (picks, wrr\<lparr>wrr_entries := map (after_picks picks (totalWeight wrr)) (wrr_entries wrr)\<rparr>)
           \<and> wrr_inv (wrr\<lparr>wrr_entries := map (after_picks picks (totalWeight wrr)) (wrr_entries wrr)\<rparr>)"
  using assms
proof (induction n arbitrary: wrr)
  case 0
  have "after_picks [] (totalWeight wrr) = (\<lambda>e. e)"
    by (rule ext) (simp add: after_picks_def)
  then have "map (after_picks [] (totalWeight wrr)) (wrr_entries wrr) = wrr_entries wrr"
    by simp
  then show ?case using "0.prems" by simp
next
  case (Suc n)
  let ?es = "wrr_entries wrr" and ?T = "totalWeight wrr"
  obtain a where a: "WeightedRoundRobin_Next wrr = (a, wrr\<lparr>wrr_entries := map (after_pick a ?T) ?es\<rparr>)"
    "wrr_inv (wrr\<lparr>wrr_entries := map (after_pick a ?T) ?es\<rparr>)"
    using wrr_next_inside [OF Suc.prems] by blast
  let ?w1 = "wrr\<lparr>wrr_entries := map (after_pick a ?T) ?es\<rparr>"
  have ne1: "wrr_entries ?w1 \<noteq> []" using Suc.prems(2) by simp
  obtain picks where p: "length picks = n"
    "wrr_calls n ?w1 = (picks, ?w1\<lparr>wrr_entries := map (after_picks picks (totalWeight ?w1)) (wrr_entries ?w1)\<rparr>)"
    "wrr_inv (?w1\<lparr>wrr_entries := map (after_picks picks (totalWeight ?w1)) (wrr_entries ?w1)\<rparr>)"
    using Suc.IH [OF a(2) ne1] by blast
  have e: "?w1\<lparr>wrr_entries := map (after_picks picks (totalWeight ?w1)) (wrr_entries ?w1)\<rparr>
           = wrr\<lparr>wrr_entries := map (after_picks (a # picks) ?T) ?es\<rparr>"
    by (simp add: after_picks_comp)
  have "wrr_calls (Suc n) wrr = (a # picks, wrr\<lparr>wrr_entries := map (after_picks (a # picks) ?T) ?es\<rparr>)"
    using p(2) by (simp add: a(1) after_picks_comp)
  moreover have "wrr_inv (wrr\<lparr>wrr_entries := map (after_picks (a # picks) ?T) ?es\<rparr>)"
    using p(3) by (simp only: e)
  moreover have "length (a # picks) = Suc n" using p(1) by simp
  ultimately show ?case by blast
qed

lemma wrr_calls_add:
  "wrr_calls (m + n) wrr
   = (fst (wrr_calls m wrr) @ fst (wrr_calls n (snd (wrr_calls m wrr))),
      snd (wrr_calls n (snd (wrr_calls m wrr))))"
  by (induction m arbitrary: wrr) (simp_all add: split_beta)

text \<open>
  From a state in which every current weight is zero, as many calls as the total weight
  return every address as often as its weight says and lead back to that state.
\<close>

lemma wrr_period:
  assumes inv: "wrr_inv wrr" and ne: "wrr_entries wrr \<noteq> []"
    and zero: "\<forall>e \<in> set (wrr_entries wrr). currentWeight e = 0"
  shows "snd (wrr_calls (nat (totalWeight wrr)) wrr) = wrr"
proof -
  let ?es = "wrr_entries wrr" and ?T = "totalWeight wrr"
  obtain e0 where e0: "e0 \<in> set ?es" using ne by (cases ?es) auto
  have T: "1 \<le> ?T" using wrr_inv_ranges(1,2) [OF inv e0] by linarith
  obtain picks where p: "length picks = nat ?T"
    "wrr_calls (nat ?T) wrr = (picks, wrr\<lparr>wrr_entries := map (after_picks picks ?T) ?es\<rparr>)"
    "wrr_inv (wrr\<lparr>wrr_entries := map (after_picks picks ?T) ?es\<rparr>)"
    using wrr_calls_inside [OF inv ne] by blast
  let ?d = "\<lambda>e. we_weight e - int (count_list picks (we_addr e))"
  have cur: "currentWeight (after_picks picks ?T e) = ?T * ?d e" if "e \<in> set ?es" for e
    using that zero T p(1) by (simp add: algebra_simps)
  have nonneg: "0 \<le> ?d e" if "e \<in> set ?es" for e
  proof -
    have "- ?T < currentWeight (after_picks picks ?T e)"
      using p(3) that by (simp add: wrr_inv_def)
    then have "?T * (- 1) < ?T * ?d e" using cur [OF that] by simp
    then have "- 1 < ?d e" using T by (simp only: mult_less_cancel_left_pos)
    then show ?thesis by simp
  qed
  have s0: "sum_list (map currentWeight (map (after_picks picks ?T) ?es)) = 0"
    using p(3) by (simp add: wrr_inv_def)
  have eq: "map currentWeight (map (after_picks picks ?T) ?es) = map (\<lambda>e. ?T * ?d e) ?es"
    using cur by (simp only: map_map comp_def cong: map_cong)
  have "sum_list (map (\<lambda>e. ?T * ?d e) ?es) = 0"
    using s0 unfolding eq .
  then have "?T * sum_list (map ?d ?es) = 0"
    by (simp only: sum_list_const_mult)
  then have "sum_list (map ?d ?es) = 0" using T by simp
  moreover have "\<forall>x \<in> set (map ?d ?es). 0 \<le> x" using nonneg by auto
  ultimately have "\<forall>x \<in> set (map ?d ?es). x = 0"
    by (simp only: sum_list_nonneg_eq_0_iff)
  then have d0: "?d e = 0" if "e \<in> set ?es" for e using that by auto
  have "after_picks picks ?T e = e" if "e \<in> set ?es" for e
  proof -
    have "currentWeight (after_picks picks ?T e) = currentWeight e"
      using cur [OF that] d0 [OF that] zero that by simp
    then show ?thesis by (simp add: after_picks_def)
  qed
  then have "map (after_picks picks ?T) ?es = ?es" by (simp add: map_idI)
  then show ?thesis by (simp add: p(2))
qed

text \<open>The same holds from every state that calls reach from there.\<close>

lemma wrr_window:
  assumes inv: "wrr_inv wrr" and ne: "wrr_entries wrr \<noteq> []"
    and zero: "\<forall>e \<in> set (wrr_entries wrr). currentWeight e = 0"
  shows "snd (wrr_calls (nat (totalWeight wrr)) (snd (wrr_calls m wrr))) = snd (wrr_calls m wrr)"
    and "\<forall>e \<in> set (wrr_entries wrr).
           int (count_list (fst (wrr_calls (nat (totalWeight wrr)) (snd (wrr_calls m wrr)))) (we_addr e))
           = we_weight e"
proof -
  let ?es = "wrr_entries wrr" and ?T = "totalWeight wrr"
  let ?sm = "snd (wrr_calls m wrr)"
  have "snd (wrr_calls (m + nat ?T) wrr) = snd (wrr_calls (nat ?T) ?sm)"
    by (simp add: wrr_calls_add)
  moreover have "snd (wrr_calls (nat ?T + m) wrr) = snd (wrr_calls m (snd (wrr_calls (nat ?T) wrr)))"
    by (simp add: wrr_calls_add)
  ultimately show ret: "snd (wrr_calls (nat ?T) ?sm) = ?sm"
    using wrr_period [OF inv ne zero] by (simp add: add.commute)
  obtain e0 where e0: "e0 \<in> set ?es" using ne by (cases ?es) auto
  have T: "1 \<le> ?T" using wrr_inv_ranges(1,2) [OF inv e0] by linarith
  obtain pm where pm: "wrr_calls m wrr = (pm, wrr\<lparr>wrr_entries := map (after_picks pm ?T) ?es\<rparr>)"
    "wrr_inv (wrr\<lparr>wrr_entries := map (after_picks pm ?T) ?es\<rparr>)"
    using wrr_calls_inside [OF inv ne] by blast
  let ?esm = "map (after_picks pm ?T) ?es"
  have sm: "?sm = wrr\<lparr>wrr_entries := ?esm\<rparr>" by (simp add: pm(1))
  have nem: "wrr_entries (wrr\<lparr>wrr_entries := ?esm\<rparr>) \<noteq> []" using ne by simp
  obtain picks where p: "length picks = nat ?T"
    "wrr_calls (nat ?T) (wrr\<lparr>wrr_entries := ?esm\<rparr>)
       = (picks, wrr\<lparr>wrr_entries := map (after_picks picks ?T) ?esm\<rparr>)"
    using wrr_calls_inside [OF pm(2) nem, of "nat ?T"] by auto
  have "wrr\<lparr>wrr_entries := map (after_picks picks ?T) ?esm\<rparr> = wrr\<lparr>wrr_entries := ?esm\<rparr>"
    using ret by (simp add: sm p(2))
  then have "wrr_entries (wrr\<lparr>wrr_entries := map (after_picks picks ?T) ?esm\<rparr>)
             = wrr_entries (wrr\<lparr>wrr_entries := ?esm\<rparr>)"
    by (rule arg_cong)
  then have "map (after_picks picks ?T) ?esm = map (\<lambda>e. e) ?esm" by simp
  then have fixed: "\<forall>e \<in> set ?esm. after_picks picks ?T e = e"
    by (simp only: map_eq_conv)
  show "\<forall>e \<in> set ?es.
           int (count_list (fst (wrr_calls (nat ?T) ?sm)) (we_addr e)) = we_weight e"
  proof
    fix e assume e: "e \<in> set ?es"
    then have "after_picks pm ?T e \<in> set ?esm" by simp
    then have "after_picks picks ?T (after_picks pm ?T e) = after_picks pm ?T e"
      using fixed by blast
    then have "currentWeight (after_picks picks ?T (after_picks pm ?T e))
               = currentWeight (after_picks pm ?T e)"
      by (rule arg_cong)
    then have "?T * we_weight e = ?T * int (count_list picks (we_addr e))"
      using T by (simp add: p(1))
    then have "we_weight e = int (count_list picks (we_addr e))"
      using T by simp
    then show "int (count_list (fst (wrr_calls (nat ?T) ?sm)) (we_addr e)) = we_weight e"
      by (simp add: sm p(2))
  qed
qed

lemma wrr_windows:
  assumes inv: "wrr_inv wrr" and ne: "wrr_entries wrr \<noteq> []"
    and zero: "\<forall>e \<in> set (wrr_entries wrr). currentWeight e = 0"
  shows "snd (wrr_calls (k * nat (totalWeight wrr)) (snd (wrr_calls m wrr))) = snd (wrr_calls m wrr)
         \<and> (\<forall>e \<in> set (wrr_entries wrr).
              int (count_list (fst (wrr_calls (k * nat (totalWeight wrr)) (snd (wrr_calls m wrr))))
                     (we_addr e))
              = int k * we_weight e)"
proof (induction k)
  case 0
  then show ?case by simp
next
  case (Suc k)
  let ?n = "nat (totalWeight wrr)" and ?sm = "snd (wrr_calls m wrr)"
  note w = wrr_window [OF inv ne zero, of m]
  have "wrr_calls (?n + k * ?n) ?sm
        = (fst (wrr_calls ?n ?sm) @ fst (wrr_calls (k * ?n) ?sm), snd (wrr_calls (k * ?n) ?sm))"
    using wrr_calls_add [of ?n "k * ?n" ?sm] by (simp only: w(1))
  then have split: "wrr_calls (Suc k * ?n) ?sm
        = (fst (wrr_calls ?n ?sm) @ fst (wrr_calls (k * ?n) ?sm), snd (wrr_calls (k * ?n) ?sm))"
    by (simp only: mult_Suc)
  have state: "snd (wrr_calls (Suc k * ?n) ?sm) = ?sm"
    using Suc.IH by (simp only: split snd_conv)
  have counts: "\<forall>e \<in> set (wrr_entries wrr).
      int (count_list (fst (wrr_calls (Suc k * ?n) ?sm)) (we_addr e)) = int (Suc k) * we_weight e"
  proof
    fix e assume e: "e \<in> set (wrr_entries wrr)"
    have "int (count_list (fst (wrr_calls (Suc k * ?n) ?sm)) (we_addr e))
          = int (count_list (fst (wrr_calls ?n ?sm)) (we_addr e))
            + int (count_list (fst (wrr_calls (k * ?n) ?sm)) (we_addr e))"
      by (simp only: split fst_conv count_list_append of_nat_add)
    also have "\<dots> = we_weight e + int k * we_weight e"
      using Suc.IH w(2) e by simp
    also have "\<dots> = int (Suc k) * we_weight e"
      by (simp add: algebra_simps)
    finally show "int (count_list (fst (wrr_calls (Suc k * ?n) ?sm)) (we_addr e))
          = int (Suc k) * we_weight e" .
  qed
  show ?case using state counts by blast
qed

text \<open>The balancer that the constructor builds, when the total weight is inside the 64-bit range.\<close>

lemma effective_weight_pos: "1 \<le> effective_weight b"
  by (simp add: effective_weight_def)

lemma sum_weights_lower: "int (length bs) \<le> sum_weights bs"
  using sum_list_lower [of "map effective_weight bs" 1]
  by (simp add: sum_weights_def effective_weight_pos)

lemma wrr_build_inside:
  "0 \<le> tot \<Longrightarrow> tot + sum_weights bs < 2 ^ 63
   \<Longrightarrow> wrr_build bs tot = (map new_entry bs, tot + sum_weights bs)"
proof (induction bs arbitrary: tot)
  case Nil
  then show ?case by (simp add: sum_weights_def)
next
  case (Cons b bs)
  let ?w = "effective_weight b"
  have s: "sum_weights (b # bs) = ?w + sum_weights bs" by (simp add: sum_weights_def)
  have w1: "1 \<le> ?w" by (rule effective_weight_pos)
  have s0: "0 \<le> sum_weights bs" using sum_weights_lower [of bs] by simp
  have "wrap64 (tot + ?w) = tot + ?w"
    using Cons.prems w1 s0 by (intro wrap64_id) (simp_all add: s)
  moreover have "wrr_build bs (tot + ?w) = (map new_entry bs, tot + ?w + sum_weights bs)"
    using Cons.prems w1 by (intro Cons.IH) (simp_all add: s)
  ultimately show ?case
    by (simp add: s new_entry_def effective_weight_def Let_def)
qed

lemma New_inside:
  assumes "distinct (map Addr bs)" "int (length bs) * sum_weights bs < 2 ^ 63"
  shows "NewWeightedRoundRobin bs = \<lparr>wrr_entries = map new_entry bs, totalWeight = sum_weights bs\<rparr>"
    and "wrr_inv (NewWeightedRoundRobin bs)"
    and "\<forall>e \<in> set (wrr_entries (NewWeightedRoundRobin bs)). currentWeight e = 0"
proof -
  have low: "int (length bs) \<le> sum_weights bs" by (rule sum_weights_lower)
  have total: "sum_weights bs < 2 ^ 63"
  proof (cases bs)
    case Nil
    then show ?thesis by (simp add: sum_weights_def)
  next
    case (Cons b bs')
    then have "1 \<le> int (length bs)" by simp
    moreover have "0 \<le> sum_weights bs" using low by simp
    ultimately have "1 * sum_weights bs \<le> int (length bs) * sum_weights bs"
      by (rule mult_right_mono)
    then show ?thesis using assms(2) by simp
  qed
  have "wrr_build bs 0 = (map new_entry bs, 0 + sum_weights bs)"
    using total by (intro wrr_build_inside) simp_all
  then show new: "NewWeightedRoundRobin bs
      = \<lparr>wrr_entries = map new_entry bs, totalWeight = sum_weights bs\<rparr>"
    by (simp add: NewWeightedRoundRobin_def)
  have a: "we_addr \<circ> new_entry = Addr"
    and w: "we_weight \<circ> new_entry = effective_weight"
    and c: "currentWeight \<circ> new_entry = (\<lambda>b. 0)"
    by (rule ext, simp add: new_entry_def)+
  have pos: "\<forall>e \<in> set (map new_entry bs). - sum_weights bs < currentWeight e"
  proof
    fix e assume "e \<in> set (map new_entry bs)"
    then have "bs \<noteq> []" "currentWeight e = 0" by (auto simp add: new_entry_def)
    then show "- sum_weights bs < currentWeight e" using low by (cases bs) auto
  qed
  show "wrr_inv (NewWeightedRoundRobin bs)"
    unfolding new wrr_inv_def
    using assms pos by (simp add: a w c sum_weights_def) (simp add: new_entry_def effective_weight_pos)
  show "\<forall>e \<in> set (wrr_entries (NewWeightedRoundRobin bs)). currentWeight e = 0"
    by (simp add: new new_entry_def)
qed

lemma wrr_counts:
  assumes "distinct (map Addr bs)" "int (length bs) * sum_weights bs < 2 ^ 63" "b \<in> set bs"
  shows "count_list (fst (wrr_calls (k * nat (sum_weights bs))
                             (snd (wrr_calls m (NewWeightedRoundRobin bs))))) (Addr b)
         = k * nat (effective_weight b)"
proof -
  note n = New_inside [OF assms(1,2)]
  have ne: "wrr_entries (NewWeightedRoundRobin bs) \<noteq> []" using assms(3) by (auto simp add: n(1))
  have T: "totalWeight (NewWeightedRoundRobin bs) = sum_weights bs" by (simp add: n(1))
  have e: "new_entry b \<in> set (wrr_entries (NewWeightedRoundRobin bs))"
    using assms(3) by (simp add: n(1))
  have "int (count_list (fst (wrr_calls (k * nat (sum_weights bs))
                             (snd (wrr_calls m (NewWeightedRoundRobin bs))))) (we_addr (new_entry b)))
        = int k * we_weight (new_entry b)"
    using wrr_windows [OF n(2) ne n(3), of k m] e by (simp only: T)
  then have "int (count_list (fst (wrr_calls (k * nat (sum_weights bs))
                             (snd (wrr_calls m (NewWeightedRoundRobin bs))))) (Addr b))
        = int (k * nat (effective_weight b))"
    using effective_weight_pos [of b] by (simp add: new_entry_def)
  then show ?thesis by (simp only: of_nat_eq_iff)
qed

text \<open>The first three picks for the weights 2 and 1, by running the calls.\<close>

lemma wrr_first_three:
  "fst (wrr_calls 3 (NewWeightedRoundRobin
          [\<lparr>Addr = ''A'', Weight = 2\<rparr>, \<lparr>Addr = ''B'', Weight = 1\<rparr>]))
   = [''A'', ''B'', ''A'']"
  by code_simp

text \<open>
  C3. For the backends A with weight 2 and B with weight 1, in that order, the first three
  calls of \<open>Next\<close> return A, B, A. For backends with distinct addresses, any \<open>k\<close> times
  the sum of the weights consecutive calls (after any number \<open>m\<close> of earlier calls) return
  each backend exactly \<open>k\<close> times its weight, where a configured weight of zero or less
  counts as 1; the number of backends times the sum of the weights is to be inside the
  64-bit range, so that no addition wraps. With the weights 5, 1 and 1, 700 calls return
  A 500 times and B and C 100 times each.
\<close>

theorem smooth_weighted_round_robin:
  "fst (wrr_calls 3 (NewWeightedRoundRobin
          [\<lparr>Addr = ''A'', Weight = 2\<rparr>, \<lparr>Addr = ''B'', Weight = 1\<rparr>]))
     = [''A'', ''B'', ''A'']
   \<and> (distinct (map Addr bs) \<and> int (length bs) * sum_weights bs < 2 ^ 63 \<and> b \<in> set bs \<longrightarrow>
        count_list (fst (wrr_calls (k * nat (sum_weights bs))
                           (snd (wrr_calls m (NewWeightedRoundRobin bs))))) (Addr b)
        = k * nat (effective_weight b))
   \<and> (let picks = fst (wrr_calls 700 (NewWeightedRoundRobin
          [\<lparr>Addr = ''A'', Weight = 5\<rparr>, \<lparr>Addr = ''B'', Weight = 1\<rparr>,
           \<lparr>Addr = ''C'', Weight = 1\<rparr>]))
       in count_list picks ''A'' = 500 \<and> count_list picks ''B'' = 100
          \<and> count_list picks ''C'' = 100)"
proof -
  let ?bs = "[\<lparr>Addr = ''A'', Weight = 5\<rparr>, \<lparr>Addr = ''B'', Weight = 1\<rparr>,
              \<lparr>Addr = ''C'', Weight = 1\<rparr>]"
  have s: "sum_weights ?bs = 7" by (simp add: sum_weights_def effective_weight_def)
  have d: "distinct (map Addr ?bs)" by simp
  have r: "int (length ?bs) * sum_weights ?bs < 2 ^ 63" by (simp add: s)
  have c: "count_list (fst (wrr_calls (100 * nat (sum_weights ?bs))
                           (snd (wrr_calls 0 (NewWeightedRoundRobin ?bs))))) (Addr x)
           = 100 * nat (effective_weight x)" if "x \<in> set ?bs" for x
    using d r that by (rule wrr_counts)
  have n: "100 * nat (sum_weights ?bs) = 700" by (simp add: s)
  have "count_list (fst (wrr_calls 700 (NewWeightedRoundRobin ?bs))) ''A'' = 500"
    "count_list (fst (wrr_calls 700 (NewWeightedRoundRobin ?bs))) ''B'' = 100"
    "count_list (fst (wrr_calls 700 (NewWeightedRoundRobin ?bs))) ''C'' = 100"
    using c [of "\<lparr>Addr = ''A'', Weight = 5\<rparr>"] c [of "\<lparr>Addr = ''B'', Weight = 1\<rparr>"]
      c [of "\<lparr>Addr = ''C'', Weight = 1\<rparr>"]
    unfolding n by (simp_all add: effective_weight_def)
  then show ?thesis
    using wrr_first_three wrr_counts [of bs b k m] by (simp only: Let_def) blast
qed

text \<open>
  The weights 2 and 0 (which counts as 1): the six calls after the first one return A four
  times and B twice.
\<close>

theorem smooth_weighted_round_robin_witness:
  "(let bs = [\<lparr>Addr = ''A'', Weight = 2\<rparr>, \<lparr>Addr = ''B'', Weight = 0\<rparr>]
    in distinct (map Addr bs) \<and> int (length bs) * sum_weights bs < 2 ^ 63
       \<and> sum_weights bs = 3
       \<and> count_list (fst (wrr_calls 6 (snd (wrr_calls 1 (NewWeightedRoundRobin bs))))) ''A'' = 4
       \<and> count_list (fst (wrr_calls 6 (snd (wrr_calls 1 (NewWeightedRoundRobin bs))))) ''B'' = 2
       \<and> fst (wrr_calls 6 (snd (wrr_calls 1 (NewWeightedRoundRobin bs))))
           = [''B'', ''A'', ''A'', ''B'', ''A'', ''A''])"
proof -
  let ?bs = "[\<lparr>Addr = ''A'', Weight = 2\<rparr>, \<lparr>Addr = ''B'', Weight = 0\<rparr>]"
  have s: "sum_weights ?bs = 3" by (simp add: sum_weights_def effective_weight_def)
  have l: "fst (wrr_calls 6 (snd (wrr_calls 1 (NewWeightedRoundRobin ?bs))))
           = [''B'', ''A'', ''A'', ''B'', ''A'', ''A'']"
    by code_simp
  have n: "2 * nat (sum_weights ?bs) = 6" by (simp add: s)
  show ?thesis
    using smooth_weighted_round_robin [of ?bs "\<lparr>Addr = ''A'', Weight = 2\<rparr>" 2 1]
      smooth_weighted_round_robin [of ?bs "\<lparr>Addr = ''B'', Weight = 0\<rparr>" 2 1]
    unfolding n Let_def
    by (simp add: s l effective_weight_def del: wrr_calls.simps One_nat_def)
qed

end
